theory Spec2Isabelle
  imports Main "HOL-Library.Word" "HOL-Library.Signed_Division"
begin

unbundle bit_operations_syntax

section \<open>The cache simulator of cachesim.c\<close>

text \<open>
  A shallow embedding of \<^verbatim>\<open>src/cachesim/cachesim.c\<close>, built with
  \<^verbatim>\<open>ADDR_WIDTH = 32\<close>. C's \<^verbatim>\<open>int\<close> is an \<open>int\<close> in
  \<open>[- 2^31, 2^31)\<close>, \<^verbatim>\<open>uint32_t\<close> is \<open>32 word\<close>, \<^verbatim>\<open>uint64_t\<close> and
  \<^verbatim>\<open>unsigned long long\<close> are \<open>64 word\<close>. The globals \<^verbatim>\<open>config\<close>,
  \<^verbatim>\<open>cache\<close>, \<^verbatim>\<open>total_access_times\<close> and \<^verbatim>\<open>total_hit_times\<close> are the
  fields of one state record that every function takes and returns.
\<close>

subsection \<open>Data\<close>

type_synonym addr_t = "32 word"

datatype replacement_policy_t = POLICY_PLRU | POLICY_FIFO | POLICY_RANDOM

record cache_config_t =
  total_size :: int
  block_size :: int
  block_num :: int
  associativity :: int
  policy :: replacement_policy_t
  set_num :: int
  bits_for_offset :: int
  bits_for_index :: int
  bits_for_tag :: int

record cache_line_t =
  valid :: "32 word"
  tag :: "64 word"

record cache_set_t =
  cache_line :: "cache_line_t list"
  plru_bits :: "64 word"
  fifo_pointer :: "64 word"

text \<open>
  \<open>cache = None\<close> is the null pointer \<^verbatim>\<open>cache\<close> has before \<^verbatim>\<open>init_cache\<close>
  and after a failed allocation; \<open>Some sets\<close> is the allocated array, \<open>sets\<close> the
  sets initialised so far.
\<close>

record sim_state =
  config :: cache_config_t
  cache :: "cache_set_t list option"
  total_access_times :: "64 word"
  total_hit_times :: "64 word"

text \<open>
  Every way the program stops instead of returning. The first four are the failed
  assertions of \<^verbatim>\<open>check_config\<close>, in its order. \<open>ArithmeticFault\<close> is an integer
  division that traps (by zero, or \<open>INT_MIN / -1\<close>), \<open>UndefinedShift\<close> a shift by
  a negative amount or by the width of the shifted type or more, \<open>OutOfBounds\<close> an
  access past the end of an allocated array or through the null pointer, and
  \<open>NonTermination\<close> a loop that never exits.
\<close>

datatype error =
    MissingParameter
  | NotPowerOfTwo
  | AssociativityExceedsBlocks
  | AssociativityTooLarge
  | AllocationError
  | ErrorVictimWay
  | ArithmeticFault
  | UndefinedShift
  | OutOfBounds
  | NonTermination

subsection \<open>Macros\<close>

definition ADDR_WIDTH :: int where
  "ADDR_WIDTH = 32"

text \<open>
  \<^verbatim>\<open>LOG2(n)\<close>: \<^verbatim>\<open>int num = (n); int result = -1; while (num) { num >>= 1; result++; }\<close>.
  The right shift of a negative \<^verbatim>\<open>int\<close> is arithmetic: it stays negative, and the
  loop never exits; \<open>None\<close> is that.
\<close>

partial_function (option) LOG2_loop :: "int \<Rightarrow> int \<Rightarrow> int option" where
  "LOG2_loop num result =
     (if num \<noteq> 0 then LOG2_loop (drop_bit 1 num) (result + 1) else Some result)"

declare LOG2_loop.simps [code]

definition LOG2 :: "int \<Rightarrow> int option" where
  "LOG2 n = LOG2_loop n (- 1)"

text \<open>
  \<^verbatim>\<open>BIT_MASK\<close> and \<^verbatim>\<open>GET_BITS\<close> compute in \<^verbatim>\<open>unsigned long long\<close>; the
  shift amounts are \<^verbatim>\<open>int\<close> expressions. They are what C computes when the
  amounts satisfy \<open>shift_defined\<close>, which \<open>access_cache\<close> checks before it uses them.
\<close>

definition shift_defined :: "int \<Rightarrow> bool" where
  "shift_defined n \<longleftrightarrow> 0 \<le> n \<and> n < 64"

definition BIT_MASK :: "int \<Rightarrow> 64 word" where
  "BIT_MASK bits = push_bit (nat bits) 1 - 1"

definition GET_BITS :: "64 word \<Rightarrow> int \<Rightarrow> int \<Rightarrow> 64 word" where
  "GET_BITS a hi lo = drop_bit (nat lo) (a AND BIT_MASK (hi + 1))"

definition GET_OFFSET :: "cache_config_t \<Rightarrow> addr_t \<Rightarrow> 64 word" where
  "GET_OFFSET c addr = GET_BITS (ucast addr) (bits_for_offset c - 1) 0"

definition GET_INDEX :: "cache_config_t \<Rightarrow> addr_t \<Rightarrow> 64 word" where
  "GET_INDEX c addr =
     GET_BITS (ucast addr) (bits_for_offset c + bits_for_index c - 1) (bits_for_offset c)"

definition GET_TAG :: "cache_config_t \<Rightarrow> addr_t \<Rightarrow> 64 word" where
  "GET_TAG c addr =
     GET_BITS (ucast addr) (ADDR_WIDTH - 1) (bits_for_offset c + bits_for_index c)"

subsection \<open>Configuration\<close>

text \<open>\<^verbatim>\<open>is_pow_2\<close> takes a \<^verbatim>\<open>uint32_t\<close>; its result is used as a truth value only.\<close>

definition is_pow_2 :: "32 word \<Rightarrow> bool" where
  "is_pow_2 n \<longleftrightarrow> n > 0 \<and> n AND (n - 1) = 0"

text \<open>
  Modelled from the spec: the macro \<^verbatim>\<open>Assert\<close> of \<^verbatim>\<open>log.h\<close>, which is not among
  the sources. A failed \<^verbatim>\<open>Assert\<close> is fatal: it reports its message and the run stops
  there. \<^verbatim>\<open>check_config\<close>, \<^verbatim>\<open>init_cache\<close> and \<^verbatim>\<open>access_cache\<close> use it; in
  the model a failed \<^verbatim>\<open>Assert\<close> is the error returned.

  \<open>check_config\<close> returns the error of the first assertion that fails. The
  \<^verbatim>\<open>int\<close> fields are converted to \<^verbatim>\<open>uint32_t\<close> at the calls of \<^verbatim>\<open>is_pow_2\<close>.
\<close>

definition check_config :: "cache_config_t \<Rightarrow> error + unit" where
  "check_config c =
     (if associativity c = 0 \<or> total_size c = 0 \<or> block_size c = 0 then Inl MissingParameter
      else if \<not> is_pow_2 (word_of_int (total_size c)) then Inl NotPowerOfTwo
      else if \<not> is_pow_2 (word_of_int (block_size c)) then Inl NotPowerOfTwo
      else if \<not> is_pow_2 (word_of_int (associativity c)) then Inl NotPowerOfTwo
      else if associativity c > block_num c then Inl AssociativityExceedsBlocks
      else if associativity c > 64 then Inl AssociativityTooLarge
      else Inr ())"

text \<open>
  C's \<^verbatim>\<open>/\<close> on \<^verbatim>\<open>int\<close> truncates towards zero (\<open>sdiv\<close>) and traps on a zero
  divisor and on \<open>INT_MIN / -1\<close>.
\<close>

definition int_div :: "int \<Rightarrow> int \<Rightarrow> error + int" where
  "int_div a b =
     (if b = 0 \<or> (a = - (2 ^ 31) \<and> b = - 1) then Inl ArithmeticFault else Inr (a sdiv b))"

text \<open>
  Lines 167 to 172 of \<^verbatim>\<open>init_cache\<close>: the derived fields of the configuration.
\<close>

definition init_geometry :: "cache_config_t \<Rightarrow> error + cache_config_t" where
  "init_geometry c =
     (case int_div (total_size c) (block_size c) of
        Inl e \<Rightarrow> Inl e
      | Inr bn \<Rightarrow>
          (case int_div bn (associativity c) of
             Inl e \<Rightarrow> Inl e
           | Inr sn \<Rightarrow>
               (case LOG2 (block_size c) of
                  None \<Rightarrow> Inl NonTermination
                | Some bo \<Rightarrow>
                    (case LOG2 sn of
                       None \<Rightarrow> Inl NonTermination
                     | Some bi \<Rightarrow>
                         Inr (c\<lparr>block_num := bn, set_num := sn, bits_for_offset := bo,
                                bits_for_index := bi,
                                bits_for_tag := ADDR_WIDTH - bo - bi\<rparr>)))))"

text \<open>
  The allocation loop of \<^verbatim>\<open>init_cache\<close>. \<open>alloc_ok k\<close> says whether the \<open>k\<close>-th
  allocation request of the run succeeds: request 0 is the \<^verbatim>\<open>malloc\<close> of the array
  of sets, request \<open>i + 1\<close> the \<^verbatim>\<open>calloc\<close> of the lines of set \<open>i\<close>. The loop
  counter is a \<^verbatim>\<open>uint32_t\<close> and \<^verbatim>\<open>set_num\<close> is converted to it for the comparison;
  \<^verbatim>\<open>calloc\<close> takes the associativity as a \<^verbatim>\<open>size_t\<close>. \<open>None\<close>: a \<^verbatim>\<open>calloc\<close> failed.
\<close>

definition empty_line :: cache_line_t where
  "empty_line = \<lparr>valid = 0, tag = 0\<rparr>"

definition empty_set :: "int \<Rightarrow> cache_set_t" where
  "empty_set assoc =
     \<lparr>cache_line = replicate (unat (word_of_int assoc :: 64 word)) empty_line,
      plru_bits = 0, fifo_pointer = 0\<rparr>"

function alloc_sets ::
  "(nat \<Rightarrow> bool) \<Rightarrow> 32 word \<Rightarrow> int \<Rightarrow> 32 word \<Rightarrow> cache_set_t list \<Rightarrow> cache_set_t list option"
where
  "alloc_sets alloc_ok n assoc i sets =
     (if i < n then
        (if \<not> alloc_ok (Suc (unat i)) then None
         else alloc_sets alloc_ok n assoc (i + 1) (sets @ [empty_set assoc]))
      else Some sets)"
  by pat_completeness auto
termination
  by (relation "measure (\<lambda>(alloc_ok, n, assoc, i, sets). unat n - unat i)")
    (simp, simp, unat_arith)

declare alloc_sets.simps [simp del]

text \<open>
  How \<^verbatim>\<open>init_cache\<close> ends: it returns, or the run stops with an error; either way
  with the globals as they are at that moment. The statements follow the source's
  order: geometry, \<^verbatim>\<open>malloc\<close> and its \<^verbatim>\<open>Assert\<close>, the allocation loop (which on
  a failed \<^verbatim>\<open>calloc\<close> frees everything, resets \<^verbatim>\<open>cache\<close> to the null pointer and
  exits), and last \<^verbatim>\<open>check_config\<close>. Seeding the random generator and the printout
  change none of the globals and are left out.
\<close>

datatype outcome = Returned sim_state | Aborted error sim_state

definition init_cache :: "(nat \<Rightarrow> bool) \<Rightarrow> sim_state \<Rightarrow> outcome" where
  "init_cache alloc_ok s =
     (case init_geometry (config s) of
        Inl e \<Rightarrow> Aborted e s
      | Inr c \<Rightarrow>
          (let s1 = s\<lparr>config := c\<rparr> in
           if \<not> alloc_ok 0 then Aborted AllocationError s1
           else
             (case alloc_sets alloc_ok (word_of_int (set_num c)) (associativity c) 0 [] of
                None \<Rightarrow> Aborted AllocationError (s1\<lparr>cache := None\<rparr>)
              | Some sets \<Rightarrow>
                  (let s2 = s1\<lparr>cache := Some sets\<rparr> in
                   case check_config c of
                     Inl e \<Rightarrow> Aborted e s2
                   | Inr u \<Rightarrow> Returned s2))))"

subsection \<open>Replacement policies\<close>

text \<open>
  The loop of \<^verbatim>\<open>update_plru_victim_way\<close>. All its locals are \<^verbatim>\<open>uint32_t\<close>;
  \<^verbatim>\<open>1ULL << current_node_index\<close> is a 64-bit shift and \<^verbatim>\<open>hit_way >> shift\<close> a
  32-bit one.
\<close>

function update_plru_loop ::
  "32 word \<Rightarrow> 32 word \<Rightarrow> 32 word \<Rightarrow> 32 word \<Rightarrow> 64 word \<Rightarrow> error + 64 word"
where
  "update_plru_loop tree_level hit_way i current_node_index bits =
     (if i < tree_level then
        (if 32 \<le> unat (tree_level - 1 - i) \<or> 64 \<le> unat current_node_index
         then Inl UndefinedShift
         else
           (let shift = tree_level - 1 - i;
                direction = drop_bit (unat shift) hit_way AND 1
            in update_plru_loop tree_level hit_way (i + 1)
                 (current_node_index * 2 + 1 + direction)
                 (if direction \<noteq> 0
                  then bits AND NOT (push_bit (unat current_node_index) 1)
                  else bits OR push_bit (unat current_node_index) 1)))
      else Inr bits)"
  by pat_completeness auto
termination
  by (relation "measure (\<lambda>(tree_level, hit_way, i, node, bits). unat tree_level - unat i)")
    (simp, simp, unat_arith)

declare update_plru_loop.simps [simp del]

text \<open>
  \<^verbatim>\<open>tree_level\<close> is the \<^verbatim>\<open>int\<close> that \<^verbatim>\<open>LOG2\<close> gives, converted to
  \<^verbatim>\<open>uint32_t\<close>.
\<close>

definition update_plru_victim_way ::
  "cache_config_t \<Rightarrow> cache_set_t \<Rightarrow> 32 word \<Rightarrow> error + cache_set_t"
where
  "update_plru_victim_way c current_cache_set hit_way =
     (if associativity c = 1 then Inr current_cache_set
      else
        (case LOG2 (associativity c) of
           None \<Rightarrow> Inl NonTermination
         | Some l \<Rightarrow>
             (case update_plru_loop (word_of_int l) hit_way 0 0 (plru_bits current_cache_set) of
                Inl e \<Rightarrow> Inl e
              | Inr bits \<Rightarrow> Inr (current_cache_set\<lparr>plru_bits := bits\<rparr>))))"

text \<open>
  The loop of \<^verbatim>\<open>find_and_updata_plru_victim_way\<close>: \<^verbatim>\<open>bit\<close> and the node index are
  \<^verbatim>\<open>uint32_t\<close>, \<^verbatim>\<open>victim_way\<close> and \<^verbatim>\<open>plru_bits\<close> are \<^verbatim>\<open>uint64_t\<close>.
\<close>

function find_plru_loop ::
  "32 word \<Rightarrow> 32 word \<Rightarrow> 32 word \<Rightarrow> 64 word \<Rightarrow> 64 word \<Rightarrow> error + 64 word \<times> 64 word"
where
  "find_plru_loop tree_level i current_node_index victim_way bits =
     (if i < tree_level then
        (if 64 \<le> unat current_node_index then Inl UndefinedShift
         else
           (let bit = (ucast (drop_bit (unat current_node_index) bits AND 1) :: 32 word)
            in find_plru_loop tree_level (i + 1)
                 (current_node_index * 2 + 1 + bit)
                 (push_bit 1 victim_way OR ucast bit)
                 (if bit \<noteq> 0
                  then bits AND NOT (push_bit (unat current_node_index) 1)
                  else bits OR push_bit (unat current_node_index) 1)))
      else Inr (victim_way, bits))"
  by pat_completeness auto
termination
  by (relation "measure (\<lambda>(tree_level, i, node, victim, bits). unat tree_level - unat i)")
    (simp, simp, unat_arith)

declare find_plru_loop.simps [simp del]

definition find_and_updata_plru_victim_way ::
  "cache_config_t \<Rightarrow> cache_set_t \<Rightarrow> error + 64 word \<times> cache_set_t"
where
  "find_and_updata_plru_victim_way c current_cache_set =
     (if associativity c = 1 then Inr (0, current_cache_set)
      else
        (case LOG2 (associativity c) of
           None \<Rightarrow> Inl NonTermination
         | Some l \<Rightarrow>
             (case find_plru_loop (word_of_int l) 0 0 0 (plru_bits current_cache_set) of
                Inl e \<Rightarrow> Inl e
              | Inr (victim_way, bits) \<Rightarrow>
                  Inr (victim_way, current_cache_set\<lparr>plru_bits := bits\<rparr>))))"

text \<open>
  \<^verbatim>\<open>(fifo_pointer + 1) % config.associativity\<close> is a \<^verbatim>\<open>uint64_t\<close> remainder: the
  associativity is converted to \<^verbatim>\<open>uint64_t\<close>, and a zero divisor traps.
\<close>

definition find_and_update_fifo_victim_way ::
  "cache_config_t \<Rightarrow> cache_set_t \<Rightarrow> error + 64 word \<times> cache_set_t"
where
  "find_and_update_fifo_victim_way c current_cache_set =
     (if (word_of_int (associativity c) :: 64 word) = 0 then Inl ArithmeticFault
      else Inr (fifo_pointer current_cache_set,
                current_cache_set\<lparr>fifo_pointer :=
                  (fifo_pointer current_cache_set + 1) mod word_of_int (associativity c)\<rparr>))"

text \<open>
  \<open>rnd\<close> is the value the call of \<^verbatim>\<open>rand()\<close> returns, an \<^verbatim>\<open>int\<close> in
  \<open>[0, RAND_MAX]\<close>. \<^verbatim>\<open>%\<close> on \<^verbatim>\<open>int\<close> is the remainder of the truncating division
  (\<open>smod\<close>); the result is converted to the \<^verbatim>\<open>uint64_t\<close> returned.
\<close>

definition find_random_victim_way :: "cache_config_t \<Rightarrow> int \<Rightarrow> error + 64 word" where
  "find_random_victim_way c rnd =
     (if associativity c = 0 \<or> (rnd = - (2 ^ 31) \<and> associativity c = - 1)
      then Inl ArithmeticFault
      else Inr (word_of_int (rnd smod associativity c)))"

subsection \<open>One access\<close>

text \<open>
  The scan of \<^verbatim>\<open>access_cache\<close> over the lines of the set: the result is
  \<^verbatim>\<open>hit_way\<close>, an \<^verbatim>\<open>int\<close> that stays \<open>- 1\<close> when no line matches. \<open>n\<close> is the
  associativity converted to \<^verbatim>\<open>uint32_t\<close> for the comparison with the counter.
\<close>

function find_hit_way ::
  "32 word \<Rightarrow> cache_line_t list \<Rightarrow> 64 word \<Rightarrow> 32 word \<Rightarrow> error + int"
where
  "find_hit_way n lines t i =
     (if i < n then
        (if length lines \<le> unat i then Inl OutOfBounds
         else if t = tag (lines ! unat i) \<and> valid (lines ! unat i) \<noteq> 0 then Inr (sint i)
         else find_hit_way n lines t (i + 1))
      else Inr (- 1))"
  by pat_completeness auto
termination
  by (relation "measure (\<lambda>(n, lines, t, i). unat n - unat i)")
    (simp, simp, unat_arith)

declare find_hit_way.simps [simp del]

text \<open>
  \<^verbatim>\<open>access_cache\<close> returns nothing; the model returns the updated globals and, to
  make the decision observable, the local \<^verbatim>\<open>hit_way\<close> of a hit or the local
  \<^verbatim>\<open>victim_way\<close> of a miss.
\<close>

datatype access_result = Hit int | Miss int

text \<open>The \<^verbatim>\<open>switch\<close> over the policy in the miss branch.\<close>

definition select_victim ::
  "cache_config_t \<Rightarrow> cache_set_t \<Rightarrow> int \<Rightarrow> error + 64 word \<times> cache_set_t"
where
  "select_victim c current_cache_set rnd =
     (case policy c of
        POLICY_PLRU \<Rightarrow> find_and_updata_plru_victim_way c current_cache_set
      | POLICY_FIFO \<Rightarrow> find_and_update_fifo_victim_way c current_cache_set
      | POLICY_RANDOM \<Rightarrow>
          (case find_random_victim_way c rnd of
             Inl e \<Rightarrow> Inl e
           | Inr v \<Rightarrow> Inr (v, current_cache_set)))"

definition access_cache ::
  "sim_state \<Rightarrow> addr_t \<Rightarrow> int \<Rightarrow> error + access_result \<times> sim_state"
where
  "access_cache s addr rnd =
     (let c = config s;
          s1 = s\<lparr>total_access_times := total_access_times s + 1\<rparr>
      in
      if \<not> (shift_defined (bits_for_offset c + bits_for_index c)
             \<and> shift_defined (bits_for_offset c))
      then Inl UndefinedShift
      else
        (let index = GET_INDEX c addr;
             tag = GET_TAG c addr
         in
         case cache s1 of
           None \<Rightarrow> Inl OutOfBounds
         | Some sets \<Rightarrow>
             if length sets \<le> unat index then Inl OutOfBounds
             else
               (let current_cache_set = sets ! unat index in
                case find_hit_way (word_of_int (associativity c))
                       (cache_line current_cache_set) tag 0 of
                  Inl e \<Rightarrow> Inl e
                | Inr hit_way \<Rightarrow>
                    if hit_way \<noteq> - 1 then
                      (let s2 = s1\<lparr>total_hit_times := total_hit_times s1 + 1\<rparr> in
                       if policy c = POLICY_PLRU then
                         (case update_plru_victim_way c current_cache_set (word_of_int hit_way) of
                            Inl e \<Rightarrow> Inl e
                          | Inr set' \<Rightarrow>
                              Inr (Hit hit_way, s2\<lparr>cache := Some (sets[unat index := set'])\<rparr>))
                       else Inr (Hit hit_way, s2))
                    else
                      (case select_victim c current_cache_set rnd of
                         Inl e \<Rightarrow> Inl e
                       | Inr (v, set') \<Rightarrow>
                           (let victim_way = sint (ucast v :: 32 word) in
                            if \<not> (victim_way \<ge> 0 \<and> victim_way < associativity c)
                            then Inl ErrorVictimWay
                            else if length (cache_line set') \<le> nat victim_way
                            then Inl OutOfBounds
                            else
                              Inr (Miss victim_way,
                                   s1\<lparr>cache := Some (sets[unat index :=
                                     set'\<lparr>cache_line := (cache_line set')[nat victim_way :=
                                       \<lparr>valid = 1, tag = tag\<rparr>]\<rparr>])\<rparr>))))))"

subsection \<open>The simulation loop\<close>

text \<open>
  The \<^verbatim>\<open>while\<close> loop of \<^verbatim>\<open>sim_cache\<close> over the addresses read from the trace,
  each paired with the value \<^verbatim>\<open>rand()\<close> would return during its access. It stops
  at the first access that fails.
\<close>

fun sim_cache ::
  "sim_state \<Rightarrow> (addr_t \<times> int) list \<Rightarrow> error + access_result list \<times> sim_state"
where
  "sim_cache s [] = Inr ([], s)"
| "sim_cache s ((addr, rnd) # trace) =
     (case access_cache s addr rnd of
        Inl e \<Rightarrow> Inl e
      | Inr (r, s') \<Rightarrow>
          (case sim_cache s' trace of
             Inl e \<Rightarrow> Inl e
           | Inr (rs, s'') \<Rightarrow> Inr (r # rs, s'')))"

subsection \<open>Start of a run, valid configurations and stores\<close>

text \<open>
  The globals when \<^verbatim>\<open>parse_arguments\<close> has returned for the options
  \<^verbatim>\<open>-s ts -b bs -a a -p p\<close>: the other fields still have the zero of static storage.
\<close>

definition parsed_arguments ::
  "int \<Rightarrow> int \<Rightarrow> int \<Rightarrow> replacement_policy_t \<Rightarrow> sim_state"
where
  "parsed_arguments ts bs a p =
     \<lparr>config = \<lparr>total_size = ts, block_size = bs, block_num = 0, associativity = a,
                 policy = p, set_num = 0, bits_for_offset = 0, bits_for_index = 0,
                 bits_for_tag = 0\<rparr>,
      cache = None, total_access_times = 0, total_hit_times = 0\<rparr>"

text \<open>
  A valid configuration: the three parameters are positive \<^verbatim>\<open>int\<close>s, the derived
  fields are the ones \<^verbatim>\<open>init_cache\<close> computes, and \<^verbatim>\<open>check_config\<close> accepts it.
\<close>

definition valid_config :: "cache_config_t \<Rightarrow> bool" where
  "valid_config c \<longleftrightarrow>
     0 < total_size c \<and> total_size c < 2 ^ 31 \<and>
     0 < block_size c \<and> block_size c < 2 ^ 31 \<and>
     0 < associativity c \<and> associativity c < 2 ^ 31 \<and>
     init_geometry c = Inr c \<and> check_config c = Inr ()"

text \<open>
  The store as \<^verbatim>\<open>init_cache\<close> allocates it and every access keeps it: one set per
  index, \<^verbatim>\<open>associativity\<close> lines in each set, every FIFO pointer below the
  associativity.
\<close>

definition set_ok :: "cache_config_t \<Rightarrow> cache_set_t \<Rightarrow> bool" where
  "set_ok c st \<longleftrightarrow>
     int (length (cache_line st)) = associativity c \<and>
     uint (fifo_pointer st) < associativity c"

definition store_ok :: "sim_state \<Rightarrow> bool" where
  "store_ok s \<longleftrightarrow>
     (case cache s of
        None \<Rightarrow> False
      | Some sets \<Rightarrow>
          int (length sets) = set_num (config s) \<and> list_all (set_ok (config s)) sets)"

subsection \<open>Concrete stores\<close>

text \<open>
  The globals after \<^verbatim>\<open>init_cache\<close> for \<^verbatim>\<open>-s 16 -b 4 -a 1 -p FIFO\<close>
  (direct-mapped, four sets), with the valid flag of the line of set 0 and the two
  counters left open: \<open>direct_mapped_state 0 0 0\<close> is what \<^verbatim>\<open>init_cache\<close>
  returns.
\<close>

definition direct_mapped_state :: "32 word \<Rightarrow> 64 word \<Rightarrow> 64 word \<Rightarrow> sim_state" where
  "direct_mapped_state v x y =
     \<lparr>config = \<lparr>total_size = 16, block_size = 4, block_num = 4, associativity = 1,
                 policy = POLICY_FIFO, set_num = 4, bits_for_offset = 2,
                 bits_for_index = 2, bits_for_tag = 28\<rparr>,
      cache = Some [\<lparr>cache_line = [\<lparr>valid = v, tag = 0\<rparr>], plru_bits = 0, fifo_pointer = 0\<rparr>,
                    empty_set 1, empty_set 1, empty_set 1],
      total_access_times = x, total_hit_times = y\<rparr>"

text \<open>
  The configuration and the globals after \<^verbatim>\<open>init_cache\<close> for
  \<^verbatim>\<open>-s 64 -b 4 -a 8\<close>: two sets of eight ways.
\<close>

definition eight_way_config :: "replacement_policy_t \<Rightarrow> cache_config_t" where
  "eight_way_config p =
     \<lparr>total_size = 64, block_size = 4, block_num = 16, associativity = 8, policy = p,
      set_num = 2, bits_for_offset = 2, bits_for_index = 1, bits_for_tag = 29\<rparr>"

definition eight_way_state :: "replacement_policy_t \<Rightarrow> sim_state" where
  "eight_way_state p =
     \<lparr>config = eight_way_config p, cache = Some [empty_set 8, empty_set 8],
      total_access_times = 0, total_hit_times = 0\<rparr>"

text \<open>
  The FIFO store of two eight-way sets after the eight misses on the addresses
  \<open>0, 8, \<dots>, 56\<close>: set 0 is full and its pointer is back at 0. The trace hits,
  misses in set 0 and misses in set 1.
\<close>

definition full_set :: cache_set_t where
  "full_set =
     \<lparr>cache_line = map (\<lambda>t. \<lparr>valid = 1, tag = t\<rparr>) [0, 1, 2, 3, 4, 5, 6, 7],
      plru_bits = 0, fifo_pointer = 0\<rparr>"

definition warm_fifo_state :: sim_state where
  "warm_fifo_state =
     \<lparr>config = eight_way_config POLICY_FIFO, cache = Some [full_set, empty_set 8],
      total_access_times = 8, total_hit_times = 0\<rparr>"

definition warm_fifo_trace :: "(addr_t \<times> int) list" where
  "warm_fifo_trace = [(0, 0), (64, 0), (8, 0), (0, 0), (4, 0), (72, 0)]"

section \<open>The specification's words\<close>

subsection \<open>The pseudo-LRU tree\<close>

text \<open>
  The specification treats \<^verbatim>\<open>plru_bits\<close> as a complete binary tree: node 0 is
  the root, the children of node \<open>i\<close> are \<open>2 * i + 1\<close> and \<open>2 * i + 2\<close>. Here the
  tree is the function from node numbers to bits; for a 64-bit word \<open>w\<close> it is
  \<open>bit w\<close>.

  Victim selection: at each level read the current node's bit, flip it, and descend to
  child \<open>2 * i + 1 + bit\<close>. \<open>spec_select_path\<close> returns the bits read, first level
  first, and the tree left behind.
\<close>

fun spec_select_path :: "nat \<Rightarrow> nat \<Rightarrow> (nat \<Rightarrow> bool) \<Rightarrow> bool list \<times> (nat \<Rightarrow> bool)" where
  "spec_select_path 0 node t = ([], t)"
| "spec_select_path (Suc levels) node t =
     (let b = t node;
          (bs, t') = spec_select_path levels (2 * node + 1 + of_bool b) (t(node := \<not> b))
      in (b # bs, t'))"

text \<open>The way is the concatenation of the bits read, most significant first.\<close>

definition way_of_bits :: "bool list \<Rightarrow> nat" where
  "way_of_bits bs = foldl (\<lambda>w b. 2 * w + of_bool b) 0 bs"

definition spec_select_victim :: "nat \<Rightarrow> (nat \<Rightarrow> bool) \<Rightarrow> nat \<times> (nat \<Rightarrow> bool)" where
  "spec_select_victim levels t =
     (let (bs, t') = spec_select_path levels 0 t in (way_of_bits bs, t'))"

text \<open>
  Update on a hit: at each level the direction is the next decision bit of the way;
  the current node's bit becomes \<open>1 - direction\<close> and the walk descends to child
  \<open>2 * i + 1 + direction\<close>. The decision bits of a way are its low \<open>levels\<close> bits,
  most significant first.
\<close>

fun spec_hit_path :: "bool list \<Rightarrow> nat \<Rightarrow> (nat \<Rightarrow> bool) \<Rightarrow> (nat \<Rightarrow> bool)" where
  "spec_hit_path [] node t = t"
| "spec_hit_path (direction # ds) node t =
     spec_hit_path ds (2 * node + 1 + of_bool direction) (t(node := \<not> direction))"

definition decision_bits :: "nat \<Rightarrow> nat \<Rightarrow> bool list" where
  "decision_bits levels w = map (\<lambda>j. bit w (levels - 1 - j)) [0..<levels]"

definition spec_on_hit :: "nat \<Rightarrow> nat \<Rightarrow> (nat \<Rightarrow> bool) \<Rightarrow> (nat \<Rightarrow> bool)" where
  "spec_on_hit levels w t = spec_hit_path (decision_bits levels w) 0 t"

subsection \<open>Putting an address back together\<close>

text \<open>
  \<open>(tag << (bits_for_offset + bits_for_index)) | (index << bits_for_offset) | offset\<close>,
  on the 64-bit values the decoding macros give.
\<close>

definition reconstruct :: "cache_config_t \<Rightarrow> 64 word \<Rightarrow> 64 word \<Rightarrow> 64 word \<Rightarrow> 64 word" where
  "reconstruct c off idx tg =
     push_bit (nat (bits_for_offset c + bits_for_index c)) tg
       OR push_bit (nat (bits_for_offset c)) idx OR off"

subsection \<open>The victims of one set\<close>

text \<open>
  Of a run over \<open>trace\<close> with results \<open>rs\<close>: the victim ways of the misses whose
  address decodes to set \<open>idx\<close>, in the order of the trace.
\<close>

fun set_victims ::
  "cache_config_t \<Rightarrow> nat \<Rightarrow> (addr_t \<times> int) list \<Rightarrow> access_result list \<Rightarrow> int list"
where
  "set_victims c idx ((addr, rnd) # trace) (Miss v # rs) =
     (if unat (GET_INDEX c addr) = idx then v # set_victims c idx trace rs
      else set_victims c idx trace rs)"
| "set_victims c idx ((addr, rnd) # trace) (Hit h # rs) = set_victims c idx trace rs"
| "set_victims c idx trace rs = []"

section \<open>Geometry of a valid configuration\<close>

lemma pow2_nat: "0 < n \<Longrightarrow> n AND (n - 1) = 0 \<Longrightarrow> \<exists>k. n = 2 ^ k" for n :: nat
proof (induction n rule: less_induct)
  case (less n)
  show ?case
  proof (cases "n = 1")
    case True
    then have "n = 2 ^ 0" by simp
    then show ?thesis by blast
  next
    case False
    with less.prems have n2: "2 \<le> n" by simp
    have unf: "n AND (n - 1) = (n mod 2) * ((n - 1) mod 2) + 2 * ((n div 2) AND ((n - 1) div 2))"
      using n2 by (subst and_nat_unfold) simp
    show ?thesis
    proof (cases "even n")
      case True
      then obtain m where m: "n = 2 * m" by (elim evenE)
      with n2 have m0: "0 < m" by simp
      have "(n - 1) div 2 = m - 1"
        using m m0 by simp
      with unf less.prems(2) m have "m AND (m - 1) = 0"
        by simp
      with less.IH [of m] m m0 obtain k where "m = 2 ^ k"
        by auto
      with m have "n = 2 ^ Suc k" by simp
      then show ?thesis by blast
    next
      case False
      then obtain m where m: "n = 2 * m + 1" by (elim oddE)
      with n2 have m0: "0 < m" by simp
      have "n div 2 = m" "(n - 1) div 2 = m"
        using m by simp_all
      with unf less.prems(2) have "m AND m = 0"
        by simp
      with m0 show ?thesis by simp
    qed
  qed
qed

lemma is_pow2_word:
  fixes x :: int
  assumes "0 < x" "x < 2 ^ 31" and "0 < (word_of_int x :: 32 word)"
    and "(word_of_int x :: 32 word) AND (word_of_int x - 1) = 0"
  shows "\<exists>k. k \<le> 30 \<and> x = 2 ^ k"
proof -
  let ?w = "word_of_int x :: 32 word"
  have ux: "unat ?w = nat x"
    using assms(1,2) by (simp add: unat_eq_nat_uint word_of_int_inverse take_bit_int_eq_self) 
  have "?w \<noteq> 0" using assms(3) by simp
  then have "unat (?w - 1) = unat ?w - 1"
    by (rule unat_minus_one)
  moreover have "unat (?w AND (?w - 1)) = unat ?w AND unat (?w - 1)"
    by (rule unsigned_and_eq)
  ultimately have "nat x AND (nat x - 1) = 0"
    using assms(4) ux by simp
  with pow2_nat [of "nat x"] assms(1) obtain k where k: "nat x = 2 ^ k"
    by auto
  then have xk: "x = 2 ^ k"
    using assms(1) by (metis int_nat_eq less_le_not_le of_nat_numeral of_nat_power)
  with assms(2) have "(2::int) ^ k < 2 ^ 31" by simp
  then have "k < 31"
    by (rule power_less_imp_less_exp [rotated]) simp
  with xk show ?thesis by auto
qed

lemma LOG2_loop_pow2: "LOG2_loop (2 ^ k) r = Some (r + 1 + int k)"
proof (induction k arbitrary: r)
  case 0
  show ?case
    by (subst LOG2_loop.simps, subst LOG2_loop.simps) (simp add: drop_bit_Suc)
next
  case (Suc k)
  have "LOG2_loop (2 ^ Suc k) r = LOG2_loop (2 ^ k) (r + 1)"
    by (subst LOG2_loop.simps) (simp add: drop_bit_Suc)
  with Suc show ?case by simp
qed

lemma LOG2_pow2: "LOG2 (2 ^ k) = Some (int k)"
  by (simp add: LOG2_def LOG2_loop_pow2)

lemma is_pow_2_int:
  "0 < x \<Longrightarrow> x < 2 ^ 31 \<Longrightarrow> is_pow_2 (word_of_int x) \<Longrightarrow> \<exists>k. k \<le> 30 \<and> x = 2 ^ k"
  unfolding is_pow_2_def using is_pow2_word [of x] by blast

lemma pow2_sdiv:
  "((2::int) ^ a) sdiv (2 ^ b) = (if b \<le> a then 2 ^ (a - b) else 0)"
  by (simp add: signed_divide_int_def power_diff_power_eq div_pos_pos_trivial)

lemma valid_config_geometry:
  assumes "valid_config c"
  obtains a b k where
    "total_size c = 2 ^ a" "block_size c = 2 ^ b" "associativity c = 2 ^ k"
    "b + k \<le> a" "a \<le> 30" "k \<le> 6"
    "block_num c = 2 ^ (a - b)" "set_num c = 2 ^ (a - b - k)"
    "bits_for_offset c = int b" "bits_for_index c = int (a - b - k)"
    "bits_for_tag c = 32 - int b - int (a - b - k)"
proof -
  from assms have pos: "0 < total_size c" "total_size c < 2 ^ 31" "0 < block_size c"
      "block_size c < 2 ^ 31" "0 < associativity c" "associativity c < 2 ^ 31"
    and geo: "init_geometry c = Inr c" and chk: "check_config c = Inr ()"
    by (simp_all add: valid_config_def)
  from chk have p2: "is_pow_2 (word_of_int (total_size c))"
      "is_pow_2 (word_of_int (block_size c))" "is_pow_2 (word_of_int (associativity c))"
    and le: "associativity c \<le> block_num c" "associativity c \<le> 64"
    by (simp_all add: check_config_def split: if_splits)
  from is_pow_2_int [OF pos(1,2) p2(1)] obtain a where a: "a \<le> 30" "total_size c = 2 ^ a"
    by blast
  from is_pow_2_int [OF pos(3,4) p2(2)] obtain b where b: "block_size c = 2 ^ b"
    by blast
  from is_pow_2_int [OF pos(5,6) p2(3)] obtain k where k: "associativity c = 2 ^ k"
    by blast
  from geo obtain bn sn bo bi where
    d1: "int_div (total_size c) (block_size c) = Inr bn" and
    d2: "int_div bn (associativity c) = Inr sn" and
    l1: "LOG2 (block_size c) = Some bo" and
    l2: "LOG2 sn = Some bi" and
    eq: "c\<lparr>block_num := bn, set_num := sn, bits_for_offset := bo, bits_for_index := bi,
           bits_for_tag := ADDR_WIDTH - bo - bi\<rparr> = c"
    by (auto simp: init_geometry_def split: sum.splits option.splits)
  have f: "block_num c = bn" "set_num c = sn" "bits_for_offset c = bo" "bits_for_index c = bi"
    "bits_for_tag c = ADDR_WIDTH - bo - bi"
    by (subst eq [symmetric], simp)+
  from d1 a b have bn: "bn = (if b \<le> a then 2 ^ (a - b) else 0)"
    by (simp add: int_div_def pow2_sdiv split: if_splits)
  from le(1) f(1) pos(5) have "0 < bn" by simp
  with bn have ba: "b \<le> a" and bn': "bn = 2 ^ (a - b)"
    by (simp_all split: if_splits)
  from d2 bn' k have sn: "sn = (if k \<le> a - b then 2 ^ (a - b - k) else 0)"
    by (simp add: int_div_def pow2_sdiv split: if_splits)
  from le(1) f(1) bn' k have "(2::int) ^ k \<le> 2 ^ (a - b)" by simp
  then have kab: "k \<le> a - b" by simp
  with sn have sn': "sn = 2 ^ (a - b - k)" by simp
  from le(2) k have "(2::int) ^ k \<le> 2 ^ 6" by simp
  then have k6: "k \<le> 6"
    by (rule power_le_imp_le_exp [rotated]) simp
  from l1 b have bo: "bo = int b" by (simp add: LOG2_pow2)
  from l2 sn' have bi: "bi = int (a - b - k)" by (simp add: LOG2_pow2)
  show thesis
  proof (rule that [of a b k])
    show "b + k \<le> a" using ba kab by simp
    show "bits_for_tag c = 32 - int b - int (a - b - k)"
      using f(5) bo bi by (simp add: ADDR_WIDTH_def)
  qed (use a b k k6 f bn' sn' bo bi in simp_all)
qed

section \<open>The pseudo-LRU loops refine the tree walks\<close>

lemma read_bit: "(ucast (drop_bit n bits AND 1) :: 32 word) = of_bool (bit bits n)"
  for bits :: "64 word"
  by (simp add: and_one_eq bit_iff_odd_drop_bit mod_2_eq_odd)

lemma clear_bit_fun:
  "n < 64 \<Longrightarrow> bit (bits AND NOT (push_bit n 1)) = (bit bits)(n := False)"
  for bits :: "64 word"
  by (rule ext) (auto simp: bit_simps dest: bit_imp_le_length)

lemma set_bit_fun:
  "n < 64 \<Longrightarrow> bit (bits OR push_bit n 1) = (bit bits)(n := True)"
  for bits :: "64 word"
  by (rule ext) (auto simp: bit_simps)

lemma child_index:
  fixes node :: "32 word"
  assumes "unat node \<le> 62"
  shows "unat (node * 2 + 1 + of_bool b) = 2 * unat node + 1 + of_bool b"
proof -
  have "node * 2 + 1 + of_bool b = word_of_nat (2 * unat node + 1 + of_bool b)"
    by (cases b) simp_all
  then have "unat (node * 2 + 1 + of_bool b) = (2 * unat node + 1 + of_bool b) mod 2 ^ 32"
    by (simp only: unat_of_nat) simp
  also have "\<dots> = 2 * unat node + 1 + of_bool b"
    using assms by (cases b) simp_all
  finally show ?thesis .
qed

lemma shift_in_bit:
  fixes v :: "64 word"
  assumes "unat v < 64"
  shows "unat (push_bit 1 v OR ucast (of_bool b :: 32 word)) = 2 * unat v + of_bool b"
proof -
  have "push_bit 1 v OR ucast (of_bool b :: 32 word) = 2 * v + of_bool b"
    by (cases b) (simp_all add: or_one_eq)
  also have "\<dots> = word_of_nat (2 * unat v + of_bool b)"
    by (cases b) simp_all
  finally have "unat (push_bit 1 v OR ucast (of_bool b :: 32 word))
      = (2 * unat v + of_bool b) mod 2 ^ 64"
    by (simp only: unat_of_nat) simp
  also have "\<dots> = 2 * unat v + of_bool b"
    using assms by (cases b) simp_all
  finally show ?thesis .
qed

lemma loop_counter_step:
  fixes i L :: "32 word"
  assumes "unat L - unat i = Suc l"
  shows "i < L" "unat L - unat (i + 1) = l" "unat (i + 1) = Suc (unat i)"
proof -
  from assms show "i < L" by (simp add: word_less_nat_alt)
  then show "unat (i + 1) = Suc (unat i)" by unat_arith
  with assms show "unat L - unat (i + 1) = l" by simp
qed

lemma spec_select_path_Suc:
  "fst (spec_select_path (Suc l) n t) =
     t n # fst (spec_select_path l (2 * n + 1 + of_bool (t n)) (t(n := \<not> t n)))"
  "snd (spec_select_path (Suc l) n t) =
     snd (spec_select_path l (2 * n + 1 + of_bool (t n)) (t(n := \<not> t n)))"
  by (simp_all add: Let_def split: prod.splits)

lemma pow_bound_first:
  fixes x :: nat
  assumes "x * 2 ^ Suc l \<le> N"
  shows "x * 2 \<le> N"
proof -
  have "x * 2 \<le> x * 2 * 2 ^ l" by simp
  also have "\<dots> = x * 2 ^ Suc l" by simp
  also note assms
  finally show ?thesis .
qed

lemma find_plru_loop_refines:
  assumes "unat L - unat i = l" "(unat node + 2) * 2 ^ l \<le> 128" "(unat v + 1) * 2 ^ l \<le> 64"
  shows "\<exists>v' bits'. find_plru_loop L i node v bits = Inr (v', bits') \<and>
     unat v' = foldl (\<lambda>w b. 2 * w + of_bool b) (unat v)
                 (fst (spec_select_path l (unat node) (bit bits))) \<and>
     bit bits' = snd (spec_select_path l (unat node) (bit bits))"
  using assms
proof (induction l arbitrary: i node v bits)
  case 0
  then have "\<not> i < L" by (simp add: word_less_nat_alt)
  then show ?case
    by (subst find_plru_loop.simps) simp
next
  case (Suc l)
  note step = loop_counter_step [OF Suc.prems(1)]
  define b where "b = bit bits (unat node)"
  define node' :: "32 word" where "node' = node * 2 + 1 + of_bool b"
  define v' :: "64 word" where "v' = push_bit 1 v OR ucast (of_bool b :: 32 word)"
  define bits' where "bits' = (if b then bits AND NOT (push_bit (unat node) 1)
     else bits OR push_bit (unat node) 1)"
  from pow_bound_first [OF Suc.prems(2)] have n62: "unat node \<le> 62" by simp
  from pow_bound_first [OF Suc.prems(3)] have v64: "unat v < 64" by simp
  have un: "unat node' = 2 * unat node + 1 + of_bool b"
    unfolding node'_def using n62 by (rule child_index)
  have uv: "unat v' = 2 * unat v + of_bool b"
    unfolding v'_def using v64 by (rule shift_in_bit)
  have bb: "bit bits' = (bit bits)(unat node := \<not> b)"
    using n62 clear_bit_fun [of "unat node" bits] set_bit_fun [of "unat node" bits]
    by (simp add: bits'_def b_def)
  have unfold: "find_plru_loop L i node v bits = find_plru_loop L (i + 1) node' v' bits'"
    using step(1) n62
    by (subst find_plru_loop.simps)
      (simp add: read_bit Let_def node'_def v'_def bits'_def b_def)
  have "(unat node' + 2) * 2 ^ l \<le> (unat node + 2) * 2 ^ Suc l"
    unfolding un by (cases b) (simp_all add: algebra_simps)
  with Suc.prems(2) have p2: "(unat node' + 2) * 2 ^ l \<le> 128" by simp
  have "(unat v' + 1) * 2 ^ l \<le> (unat v + 1) * 2 ^ Suc l"
    unfolding uv by (cases b) (simp_all add: algebra_simps)
  with Suc.prems(3) have p3: "(unat v' + 1) * 2 ^ l \<le> 64" by simp
  from Suc.IH [OF step(2) p2 p3, of bits'] obtain vf bf where
    r: "find_plru_loop L (i + 1) node' v' bits' = Inr (vf, bf)"
      "unat vf = foldl (\<lambda>w b. 2 * w + of_bool b) (unat v')
         (fst (spec_select_path l (unat node') (bit bits')))"
      "bit bf = snd (spec_select_path l (unat node') (bit bits'))"
    by blast
  show ?case
  proof (intro exI conjI)
    show "find_plru_loop L i node v bits = Inr (vf, bf)"
      using unfold r(1) by simp
    show "unat vf = foldl (\<lambda>w b. 2 * w + of_bool b) (unat v)
        (fst (spec_select_path (Suc l) (unat node) (bit bits)))"
      using r(2) unfolding spec_select_path_Suc un uv bb b_def by simp
    show "bit bf = snd (spec_select_path (Suc l) (unat node) (bit bits))"
      using r(3) unfolding spec_select_path_Suc un uv bb b_def by simp
  qed
qed

lemma read_direction: "drop_bit n w AND 1 = of_bool (bit w n)"
  for w :: "32 word"
  by (simp add: and_one_eq bit_iff_odd_drop_bit mod_2_eq_odd)

lemma update_plru_loop_refines:
  assumes "unat L - unat i = l" "unat L \<le> 32" "(unat node + 2) * 2 ^ l \<le> 128"
  shows "\<exists>bits'. update_plru_loop L w i node bits = Inr bits' \<and>
     bit bits' = spec_hit_path (map (\<lambda>j. bit w (unat L - 1 - j)) [unat i..<unat L])
                   (unat node) (bit bits)"
  using assms
proof (induction l arbitrary: i node bits)
  case 0
  then have "\<not> i < L" and "unat L \<le> unat i"
    by (simp_all add: word_less_nat_alt)
  then show ?case
    by (subst update_plru_loop.simps) simp
next
  case (Suc l)
  note step = loop_counter_step [OF Suc.prems(1)]
  define shift where "shift = L - 1 - i"
  have us: "unat shift = unat L - 1 - unat i"
    unfolding shift_def using step(1) by unat_arith
  with Suc.prems(2) have s32: "unat shift < 32" using Suc.prems(1) by simp
  define d where "d = bit w (unat L - 1 - unat i)"
  define node' :: "32 word" where "node' = node * 2 + 1 + of_bool d"
  define bits' where "bits' = (if d then bits AND NOT (push_bit (unat node) 1)
     else bits OR push_bit (unat node) 1)"
  from pow_bound_first [OF Suc.prems(3)] have n62: "unat node \<le> 62" by simp
  have un: "unat node' = 2 * unat node + 1 + of_bool d"
    unfolding node'_def using n62 by (rule child_index)
  have bb: "bit bits' = (bit bits)(unat node := \<not> d)"
    using n62 clear_bit_fun [of "unat node" bits] set_bit_fun [of "unat node" bits]
    by (simp add: bits'_def)
  have unfold: "update_plru_loop L w i node bits = update_plru_loop L w (i + 1) node' bits'"
    using step(1) n62 s32 us
    by (subst update_plru_loop.simps)
      (simp add: read_direction Let_def node'_def bits'_def d_def shift_def)
  have "(unat node' + 2) * 2 ^ l \<le> (unat node + 2) * 2 ^ Suc l"
    unfolding un by (cases d) (simp_all add: algebra_simps)
  with Suc.prems(3) have p3: "(unat node' + 2) * 2 ^ l \<le> 128" by simp
  from Suc.IH [OF step(2) Suc.prems(2) p3, of bits'] obtain bf where
    r: "update_plru_loop L w (i + 1) node' bits' = Inr bf"
      "bit bf = spec_hit_path (map (\<lambda>j. bit w (unat L - 1 - j)) [unat (i + 1)..<unat L])
         (unat node') (bit bits')"
    by blast
  have upt: "[unat i..<unat L] = unat i # [unat (i + 1)..<unat L]"
    using step(1,3) by (simp add: upt_conv_Cons word_less_nat_alt)
  show ?case
  proof (intro exI conjI)
    show "update_plru_loop L w i node bits = Inr bf"
      using unfold r(1) by simp
    show "bit bf = spec_hit_path (map (\<lambda>j. bit w (unat L - 1 - j)) [unat i..<unat L])
        (unat node) (bit bits)"
      using r(2) unfolding upt un bb by (simp add: d_def)
  qed
qed

lemma spec_select_path_below:
  "j < n \<Longrightarrow> snd (spec_select_path l n t) j = t j"
proof (induction l arbitrary: n t)
  case 0
  show ?case by simp
next
  case (Suc l)
  have "snd (spec_select_path l (2 * n + 1 + of_bool (t n)) (t(n := \<not> t n))) j
      = (t(n := \<not> t n)) j"
    using Suc.prems by (intro Suc.IH) simp
  with Suc.prems show ?case
    by (simp add: spec_select_path_Suc del: spec_select_path.simps)
qed

lemma spec_select_path_length: "length (fst (spec_select_path l n t)) = l"
  by (induction l arbitrary: n t)
    (simp_all add: spec_select_path_Suc del: spec_select_path.simps(2))

lemma spec_hit_path_select:
  "spec_hit_path (fst (spec_select_path l n t)) n (snd (spec_select_path l n t))
     = snd (spec_select_path l n t)"
proof (induction l arbitrary: n t)
  case 0
  show ?case by simp
next
  case (Suc l)
  let ?n' = "2 * n + 1 + of_bool (t n)"
  let ?t1 = "t(n := \<not> t n)"
  let ?t' = "snd (spec_select_path l ?n' ?t1)"
  have "?t' n = ?t1 n"
    by (rule spec_select_path_below) simp
  then have upd: "?t'(n := \<not> t n) = ?t'"
    by (simp add: fun_upd_idem_iff)
  have "spec_hit_path (fst (spec_select_path (Suc l) n t)) n
        (snd (spec_select_path (Suc l) n t))
      = spec_hit_path (t n # fst (spec_select_path l ?n' ?t1)) n ?t'"
    by (simp only: spec_select_path_Suc)
  also have "\<dots> = spec_hit_path (fst (spec_select_path l ?n' ?t1)) ?n' (?t'(n := \<not> t n))"
    by (simp only: spec_hit_path.simps)
  also have "\<dots> = spec_hit_path (fst (spec_select_path l ?n' ?t1)) ?n' ?t'"
    by (simp only: upd)
  also have "\<dots> = ?t'"
    by (rule Suc.IH)
  also have "\<dots> = snd (spec_select_path (Suc l) n t)"
    by (simp only: spec_select_path_Suc)
  finally show ?case .
qed

lemma spec_select_victim_sel:
  "fst (spec_select_victim l t) = way_of_bits (fst (spec_select_path l 0 t))"
  "snd (spec_select_victim l t) = snd (spec_select_path l 0 t)"
  by (simp_all add: spec_select_victim_def split: prod.splits)

lemma way_of_bits_snoc: "way_of_bits (bs @ [b]) = 2 * way_of_bits bs + of_bool b"
  by (simp add: way_of_bits_def)

lemma decision_bits_Suc:
  "decision_bits (Suc l) w = decision_bits l (w div 2) @ [odd w]"
proof -
  have "map (\<lambda>j. bit w (l - j)) [0..<l] = map (\<lambda>j. bit (w div 2) (l - 1 - j)) [0..<l]"
  proof (rule map_cong [OF refl])
    fix j assume "j \<in> set [0..<l]"
    then have "l - j = Suc (l - 1 - j)" by simp
    then show "bit w (l - j) = bit (w div 2) (l - 1 - j)"
      by (simp only: bit_Suc)
  qed
  then show ?thesis
    by (simp add: decision_bits_def bit_0)
qed

lemma decision_bits_way_of_bits: "decision_bits (length bs) (way_of_bits bs) = bs"
proof (induction bs rule: rev_induct)
  case Nil
  show ?case by (simp add: decision_bits_def)
next
  case (snoc b bs)
  have "(2 * way_of_bits bs + of_bool b) div 2 = way_of_bits bs"
    by (cases b) simp_all
  moreover have "odd (2 * way_of_bits bs + of_bool b) = b"
    by (cases b) simp_all
  ultimately show ?case
    using snoc.IH by (simp add: decision_bits_Suc way_of_bits_snoc)
qed

lemma way_of_bits_bound: "way_of_bits bs < 2 ^ length bs"
proof (induction bs rule: rev_induct)
  case Nil
  show ?case by (simp add: way_of_bits_def)
next
  case (snoc b bs)
  then have "2 * way_of_bits bs + 2 \<le> 2 * 2 ^ length bs" by simp
  then show ?case
    by (cases b) (simp_all add: way_of_bits_snoc)
qed

lemma spec_select_twice_differ:
  assumes "0 < l"
  shows "fst (spec_select_victim l (snd (spec_select_victim l t)))
     \<noteq> fst (spec_select_victim l t)"
proof -
  obtain l' where l: "l = Suc l'" using assms by (cases l) auto
  let ?bs1 = "fst (spec_select_path l 0 t)"
  let ?t1 = "snd (spec_select_path l 0 t)"
  let ?bs2 = "fst (spec_select_path l 0 ?t1)"
  have h1: "hd ?bs1 = t 0"
    unfolding l by (simp add: spec_select_path_Suc del: spec_select_path.simps)
  have "?t1 0 = (t(0 := \<not> t 0)) 0"
    unfolding l spec_select_path_Suc by (rule spec_select_path_below) simp
  then have t1: "?t1 0 = (\<not> t 0)" by simp
  have "hd ?bs2 = ?t1 0"
    unfolding l by (simp add: spec_select_path_Suc del: spec_select_path.simps)
  with h1 t1 have "?bs1 \<noteq> ?bs2" by auto
  moreover have "decision_bits l (way_of_bits ?bs1) = ?bs1"
    using decision_bits_way_of_bits [of ?bs1] by (simp add: spec_select_path_length)
  moreover have "decision_bits l (way_of_bits ?bs2) = ?bs2"
    using decision_bits_way_of_bits [of ?bs2] by (simp add: spec_select_path_length)
  ultimately have "way_of_bits ?bs2 \<noteq> way_of_bits ?bs1" by metis
  then show ?thesis
    by (simp add: spec_select_victim_sel)
qed

lemma tree_level_word: "k \<le> 6 \<Longrightarrow> unat (word_of_int (int k) :: 32 word) = k"
  by (simp add: unat_of_nat)

lemma pow2_not_one: "0 < k \<Longrightarrow> (2::int) ^ k \<noteq> 1"
  using power_increasing [of 1 k "2::int"] by simp

lemma pow_le_64: "k \<le> 6 \<Longrightarrow> (2::nat) ^ k \<le> 64"
  using power_increasing [of k 6 "2::nat"] by simp

lemma find_plru_refines:
  assumes "associativity c = 2 ^ k" "0 < k" "k \<le> 6"
  shows "\<exists>v bits'. find_and_updata_plru_victim_way c st = Inr (v, st\<lparr>plru_bits := bits'\<rparr>) \<and>
     unat v = fst (spec_select_victim k (bit (plru_bits st))) \<and>
     bit bits' = snd (spec_select_victim k (bit (plru_bits st)))"
proof -
  let ?L = "word_of_int (int k) :: 32 word"
  have l: "unat ?L - unat (0 :: 32 word) = k"
    using tree_level_word [OF assms(3)] by simp
  have n: "(unat (0 :: 32 word) + 2) * 2 ^ k \<le> 128"
    using pow_le_64 [OF assms(3)] by simp
  have v: "(unat (0 :: 64 word) + 1) * 2 ^ k \<le> 64"
    using pow_le_64 [OF assms(3)] by simp
  from find_plru_loop_refines [OF l n v, of "plru_bits st"] obtain vf bf where
    r: "find_plru_loop ?L 0 0 0 (plru_bits st) = Inr (vf, bf)"
      "unat vf = foldl (\<lambda>w b. 2 * w + of_bool b) 0
         (fst (spec_select_path k 0 (bit (plru_bits st))))"
      "bit bf = snd (spec_select_path k 0 (bit (plru_bits st)))"
    by auto
  have "find_and_updata_plru_victim_way c st = Inr (vf, st\<lparr>plru_bits := bf\<rparr>)"
    using assms(1) pow2_not_one [OF assms(2)] r(1)
    by (simp add: find_and_updata_plru_victim_way_def LOG2_pow2)
  moreover have "unat vf = fst (spec_select_victim k (bit (plru_bits st)))"
    using r(2) by (simp add: spec_select_victim_sel way_of_bits_def)
  moreover have "bit bf = snd (spec_select_victim k (bit (plru_bits st)))"
    using r(3) by (simp add: spec_select_victim_sel)
  ultimately show ?thesis by blast
qed

lemma decision_bits_word:
  "map (\<lambda>j. bit w (k - 1 - j)) [0..<k] = decision_bits k (unat w)" for w :: "32 word"
  by (simp add: decision_bits_def bit_unsigned_iff)

lemma update_plru_refines:
  assumes "associativity c = 2 ^ k" "0 < k" "k \<le> 6"
  shows "\<exists>bits'. update_plru_victim_way c st w = Inr (st\<lparr>plru_bits := bits'\<rparr>) \<and>
     bit bits' = spec_on_hit k (unat w) (bit (plru_bits st))"
proof -
  let ?L = "word_of_int (int k) :: 32 word"
  have uL: "unat ?L = k"
    using assms(3) by (rule tree_level_word)
  have l: "unat ?L - unat (0 :: 32 word) = k"
    using uL by simp
  have L32: "unat ?L \<le> 32"
    using uL assms(3) by simp
  have n: "(unat (0 :: 32 word) + 2) * 2 ^ k \<le> 128"
    using pow_le_64 [OF assms(3)] by simp
  from update_plru_loop_refines [OF l L32 n, of w "plru_bits st"] obtain bf where
    r: "update_plru_loop ?L w 0 0 (plru_bits st) = Inr bf"
      "bit bf = spec_hit_path (map (\<lambda>j. bit w (unat ?L - 1 - j)) [unat (0 :: 32 word)..<unat ?L])
         (unat (0 :: 32 word)) (bit (plru_bits st))"
    by blast
  have "update_plru_victim_way c st w = Inr (st\<lparr>plru_bits := bf\<rparr>)"
    using assms(1) pow2_not_one [OF assms(2)] r(1)
    by (simp add: update_plru_victim_way_def LOG2_pow2)
  moreover have "bit bf = spec_on_hit k (unat w) (bit (plru_bits st))"
    using r(2) unfolding uL spec_on_hit_def decision_bits_word [symmetric] by simp
  ultimately show ?thesis by blast
qed

lemma ucast_small: "unat w < 64 \<Longrightarrow> unat (ucast w :: 32 word) = unat w"
  for w :: "64 word"
  by (simp add: unsigned_ucast_eq take_bit_nat_eq_self)

lemma valid_config_assoc:
  assumes "valid_config c"
  obtains k where "associativity c = 2 ^ k" "k \<le> 6"
  using assms by (rule valid_config_geometry)

lemma valid_config_levels:
  assumes "valid_config c" "associativity c = 2 ^ k"
  shows "k \<le> 6" and "1 < associativity c \<Longrightarrow> 0 < k"
proof -
  from assms(1) obtain k' where k': "associativity c = 2 ^ k'" "k' \<le> 6"
    by (rule valid_config_assoc)
  from k'(1) assms(2) have "(2::int) ^ k = 2 ^ k'" by simp
  then have "k = k'" by simp
  with k'(2) show "k \<le> 6" by simp
  show "0 < k" if "1 < associativity c"
    using that assms(2) by (cases k) simp_all
qed

section \<open>One access under a valid configuration\<close>

lemma BIT_MASK_mask: "0 \<le> n \<Longrightarrow> BIT_MASK n = mask (nat n)"
  by (simp add: BIT_MASK_def mask_eq_exp_minus_1)

lemma GET_BITS_take_drop:
  "0 \<le> hi + 1 \<Longrightarrow> GET_BITS a hi lo = drop_bit (nat lo) (take_bit (nat (hi + 1)) a)"
  by (simp add: GET_BITS_def BIT_MASK_mask take_bit_eq_mask)

lemma decode_fields:
  assumes "bits_for_offset c = int b" "bits_for_index c = int m"
  shows "GET_OFFSET c addr = take_bit b (ucast addr)"
    and "GET_INDEX c addr = drop_bit b (take_bit (b + m) (ucast addr))"
    and "b + m \<le> 32 \<Longrightarrow> GET_TAG c addr = drop_bit (b + m) (ucast addr)"
proof -
  show "GET_OFFSET c addr = take_bit b (ucast addr)"
    using assms by (simp add: GET_OFFSET_def GET_BITS_take_drop)
  have "nat (int b + int m) = b + m" by simp
  then show "GET_INDEX c addr = drop_bit b (take_bit (b + m) (ucast addr))"
    using assms by (simp add: GET_INDEX_def GET_BITS_take_drop)
  have "take_bit 32 (ucast addr :: 64 word) = ucast addr"
    by (rule bit_word_eqI) (auto simp: bit_simps dest: bit_imp_le_length)
  then show "GET_TAG c addr = drop_bit (b + m) (ucast addr)"
    using assms \<open>nat (int b + int m) = b + m\<close>
    by (simp add: GET_TAG_def GET_BITS_take_drop ADDR_WIDTH_def)
qed

lemma reconstruct_fields:
  fixes x :: "64 word"
  shows "push_bit (b + m) (drop_bit (b + m) x)
      OR push_bit b (drop_bit b (take_bit (b + m) x)) OR take_bit b x = x"
proof (rule bit_word_eqI)
  fix n
  consider "n < b" | "b \<le> n" "n < b + m" | "b + m \<le> n"
    by linarith
  then show "bit (push_bit (b + m) (drop_bit (b + m) x)
      OR push_bit b (drop_bit b (take_bit (b + m) x)) OR take_bit b x) n = bit x n"
    by cases (auto simp: bit_simps dest: bit_imp_le_length)
qed

lemma index_bound:
  fixes x :: "64 word"
  shows "unat (drop_bit b (take_bit (b + m) x)) < 2 ^ m"
proof -
  have "drop_bit b (take_bit (b + m) x) = take_bit m (drop_bit b x)"
    by (simp add: take_bit_drop_bit add.commute)
  then show ?thesis
    by (simp add: unsigned_take_bit_eq)
qed

lemma sint_small:
  fixes i :: "32 word"
  assumes "unat i < 64"
  shows "sint i = int (unat i)"
proof -
  have "sint i = sint (word_of_nat (unat i) :: 32 word)" by simp
  also have "\<dots> = signed_take_bit 31 (int (unat i))"
    by (simp only: signed_of_nat) simp
  also have "\<dots> = int (unat i)"
  proof (rule signed_take_bit_int_eq_self)
    show "- (2 ^ 31) \<le> int (unat i)"
      by (rule order_trans [of _ 0]) simp_all
    have "int (unat i) < int 64"
      using assms by (simp only: of_nat_less_iff)
    also have "int 64 < 2 ^ 31" by simp
    finally show "int (unat i) < 2 ^ 31" .
  qed
  finally show ?thesis .
qed

lemma find_hit_way_result:
  assumes "unat n = length lines" "length lines \<le> 64" "unat n - unat i = l"
  shows "\<exists>h. find_hit_way n lines t i = Inr h \<and>
     (if \<exists>j. unat i \<le> j \<and> j < length lines \<and> t = tag (lines ! j) \<and> valid (lines ! j) \<noteq> 0
      then 0 \<le> h \<and> unat i \<le> nat h \<and> nat h < length lines \<and>
        t = tag (lines ! nat h) \<and> valid (lines ! nat h) \<noteq> 0
      else h = - 1)"
  using assms(3)
proof (induction l arbitrary: i)
  case 0
  with assms(1) have "\<not> i < n" "length lines \<le> unat i"
    by (simp_all add: word_less_nat_alt)
  then show ?case
    by (subst find_hit_way.simps) auto
next
  case (Suc l)
  note step = loop_counter_step [OF Suc.prems]
  from step(1) assms(1) have in_range: "unat i < length lines"
    by (simp add: word_less_nat_alt)
  show ?case
  proof (cases "t = tag (lines ! unat i) \<and> valid (lines ! unat i) \<noteq> 0")
    case True
    have "sint i = int (unat i)"
      using in_range assms(2) by (intro sint_small) simp
    with True step(1) in_range have "find_hit_way n lines t i = Inr (int (unat i))"
      by (subst find_hit_way.simps) simp
    moreover from True in_range
    have "\<exists>j. unat i \<le> j \<and> j < length lines \<and> t = tag (lines ! j) \<and> valid (lines ! j) \<noteq> 0"
      by blast
    ultimately show ?thesis
      using True in_range by simp
  next
    case False
    with step(1) in_range have unfold: "find_hit_way n lines t i = find_hit_way n lines t (i + 1)"
      by (subst find_hit_way.simps) auto
    have "(\<exists>j. unat i \<le> j \<and> j < length lines \<and> t = tag (lines ! j) \<and> valid (lines ! j) \<noteq> 0)
      \<longleftrightarrow> (\<exists>j. unat (i + 1) \<le> j \<and> j < length lines \<and> t = tag (lines ! j) \<and> valid (lines ! j) \<noteq> 0)"
      (is "?A \<longleftrightarrow> ?B")
    proof
      assume ?A
      then obtain j where j: "unat i \<le> j" "j < length lines"
        "t = tag (lines ! j) \<and> valid (lines ! j) \<noteq> 0" by blast
      with False have "j \<noteq> unat i" by auto
      with j(1) step(3) have "unat (i + 1) \<le> j" by simp
      with j show ?B by blast
    next
      assume ?B
      then obtain j where j: "unat (i + 1) \<le> j" "j < length lines"
        "t = tag (lines ! j) \<and> valid (lines ! j) \<noteq> 0" by blast
      from j(1) step(3) have "unat i \<le> j" by simp
      with j show ?A by blast
    qed
    with Suc.IH [OF step(2)] show ?thesis
      unfolding unfold step(3) by (auto split: if_splits)
  qed
qed

lemma unat_pow2_64: "k \<le> 6 \<Longrightarrow> unat (2 ^ k :: 64 word) = 2 ^ k"
  by (simp add: unsigned_eq_0_iff unat_eq_nat_uint uint_2p word_neq_0_conv [symmetric])

lemma fifo_advance:
  fixes p :: "64 word"
  assumes "k \<le> 6" "unat p < 2 ^ k"
  shows "unat ((p + 1) mod 2 ^ k) = (unat p + 1) mod 2 ^ k"
proof -
  have "(2::nat) ^ k \<le> 64" using assms(1) by (rule pow_le_64)
  with assms(2) have "unat p + 1 < 2 ^ 64" by simp
  then have "unat (p + 1) = unat p + 1"
    by (simp add: unat_word_ariths unat_of_nat)
  then show ?thesis
    using assms(1) by (simp add: unat_mod unat_pow2_64)
qed

lemma rand_way:
  fixes rnd :: int
  assumes "0 \<le> rnd" "k \<le> 6"
  shows "unat (word_of_int (rnd smod 2 ^ k) :: 64 word) = nat (rnd mod 2 ^ k)"
proof -
  have s: "rnd smod 2 ^ k = rnd mod 2 ^ k"
    using assms(1) by (cases "rnd = 0") (simp_all add: signed_modulo_int_def)
  have "(2::nat) ^ k \<le> 64" using assms(2) by (rule pow_le_64)
  then have le: "(2::int) ^ k \<le> 64"
    by (metis of_nat_le_iff of_nat_numeral of_nat_power)
  have nonneg: "0 \<le> rnd mod 2 ^ k" by simp
  have "rnd mod 2 ^ k < 2 ^ k" by simp
  also note le
  also have "(64::int) < 2 ^ 64" by simp
  finally have "rnd mod 2 ^ k < 2 ^ 64" .
  with nonneg have "uint (word_of_int (rnd mod 2 ^ k) :: 64 word) = rnd mod 2 ^ k"
    by (simp add: uint_word_of_int)
  then show ?thesis
    by (simp add: s unat_eq_nat_uint)
qed

lemma uint_less_pow2: "uint v < 2 ^ k \<longleftrightarrow> unat v < 2 ^ k" for v :: "'a::len word"
proof -
  have "uint v < 2 ^ k \<longleftrightarrow> int (unat v) < int (2 ^ k)"
    by (simp only: uint_nat of_nat_power of_nat_numeral)
  then show ?thesis by (simp only: of_nat_less_iff)
qed

lemma set_ok_pow2:
  assumes "associativity c = 2 ^ k"
  shows "set_ok c st \<longleftrightarrow> length (cache_line st) = 2 ^ k \<and> unat (fifo_pointer st) < 2 ^ k"
proof -
  have "int (length (cache_line st)) = 2 ^ k \<longleftrightarrow> length (cache_line st) = 2 ^ k"
    by (metis of_nat_eq_iff of_nat_numeral of_nat_power)
  then show ?thesis
    by (simp only: set_ok_def assms uint_less_pow2)
qed

lemma fifo_step:
  assumes "associativity c = 2 ^ k" "k \<le> 6" "unat (fifo_pointer st) < 2 ^ k"
  shows "\<exists>p'. find_and_update_fifo_victim_way c st = Inr (fifo_pointer st, st\<lparr>fifo_pointer := p'\<rparr>)
     \<and> unat p' = (unat (fifo_pointer st) + 1) mod 2 ^ k"
proof -
  have w: "(word_of_int (associativity c) :: 64 word) = 2 ^ k"
    by (simp only: assms(1) word_of_int_2p)
  have "unat (2 ^ k :: 64 word) \<noteq> 0"
    using unat_pow2_64 [OF assms(2)] by simp
  then have "(2 ^ k :: 64 word) \<noteq> 0"
    by (simp only: unsigned_eq_0_iff not_False_eq_True)
  then have "find_and_update_fifo_victim_way c st
      = Inr (fifo_pointer st, st\<lparr>fifo_pointer := (fifo_pointer st + 1) mod 2 ^ k\<rparr>)"
    by (simp only: find_and_update_fifo_victim_way_def w if_False)
  with fifo_advance [OF assms(2,3)] show ?thesis by blast
qed

lemma select_victim_ok:
  assumes "valid_config c" "set_ok c st" "0 \<le> rnd"
  shows "\<exists>v st'. select_victim c st rnd = Inr (v, st') \<and> uint v < associativity c \<and>
     cache_line st' = cache_line st \<and> set_ok c st'"
proof -
  from assms(1) obtain k where k: "associativity c = 2 ^ k" "k \<le> 6"
    by (rule valid_config_assoc)
  from assms(2) have ok: "length (cache_line st) = 2 ^ k" "unat (fifo_pointer st) < 2 ^ k"
    by (simp_all only: set_ok_pow2 [OF k(1)])
  have goal: "\<exists>v st'. select_victim c st rnd = Inr (v, st') \<and> unat v < 2 ^ k \<and>
     cache_line st' = cache_line st \<and> unat (fifo_pointer st') < 2 ^ k"
  proof (cases "policy c")
    case POLICY_PLRU
    show ?thesis
    proof (cases "k = 0")
      case True
      with k(1) have "find_and_updata_plru_victim_way c st = Inr (0, st)"
        by (simp add: find_and_updata_plru_victim_way_def)
      with POLICY_PLRU ok(2) show ?thesis
        by (simp add: select_victim_def)
    next
      case False
      then have "0 < k" by simp
      from find_plru_refines [OF k(1) this k(2), of st] obtain v b' where
        r: "find_and_updata_plru_victim_way c st = Inr (v, st\<lparr>plru_bits := b'\<rparr>)"
          "unat v = fst (spec_select_victim k (bit (plru_bits st)))"
        by blast
      have "unat v < 2 ^ k"
        using way_of_bits_bound [of "fst (spec_select_path k 0 (bit (plru_bits st)))"]
        by (simp add: r(2) spec_select_victim_sel spec_select_path_length)
      with r(1) POLICY_PLRU ok(2) show ?thesis
        by (simp add: select_victim_def)
    qed
  next
    case POLICY_FIFO
    from fifo_step [OF k ok(2)] obtain p' where
      r: "find_and_update_fifo_victim_way c st = Inr (fifo_pointer st, st\<lparr>fifo_pointer := p'\<rparr>)"
        "unat p' = (unat (fifo_pointer st) + 1) mod 2 ^ k"
      by blast
    from r(2) have "unat p' < 2 ^ k" by simp
    with r(1) POLICY_FIFO ok(2) show ?thesis
      by (simp add: select_victim_def)
  next
    case POLICY_RANDOM
    have "(2::int) ^ k \<noteq> 0" by simp
    moreover from assms(3) have "rnd \<noteq> - (2 ^ 31)" by simp
    ultimately have "find_random_victim_way c rnd = Inr (word_of_int (rnd smod 2 ^ k))"
      by (simp add: find_random_victim_way_def k(1))
    moreover have "unat (word_of_int (rnd smod 2 ^ k) :: 64 word) < 2 ^ k"
      unfolding rand_way [OF assms(3) k(2)]
      by (metis Euclidean_Rings.pos_mod_bound nat_less_numeral_power_cancel_iff zero_less_numeral zero_less_power)
    ultimately show ?thesis
      using POLICY_RANDOM ok(2) by (simp add: select_victim_def)
  qed
  then obtain v st' where r: "select_victim c st rnd = Inr (v, st')" "unat v < 2 ^ k"
    "cache_line st' = cache_line st" "unat (fifo_pointer st') < 2 ^ k"
    by blast
  from r(3,4) ok(1) have "set_ok c st'"
    by (simp only: set_ok_pow2 [OF k(1)])
  moreover from r(2) have "uint v < associativity c"
    by (simp only: k(1) uint_less_pow2)
  ultimately show ?thesis using r(1,3) by blast
qed

lemma victim_way_int:
  fixes v :: "64 word"
  assumes "unat v < 64"
  shows "sint (ucast v :: 32 word) = uint v"
proof -
  have "unat (ucast v :: 32 word) = unat v"
    using assms by (rule ucast_small)
  then have "sint (ucast v :: 32 word) = int (unat v)"
    using assms sint_small [of "ucast v"] by simp
  then show ?thesis by (simp only: uint_nat)
qed

lemma assoc_word32: "k \<le> 6 \<Longrightarrow> unat (word_of_int (2 ^ k) :: 32 word) = 2 ^ k"
proof -
  assume k: "k \<le> 6"
  have "(2::nat) ^ k \<le> 64" using k by (rule pow_le_64)
  then have "(2::nat) ^ k < 2 ^ 32" by simp
  then have "unat (word_of_nat (2 ^ k) :: 32 word) = 2 ^ k"
    by (simp only: unat_of_nat) simp
  then show ?thesis by simp
qed

lemma access_context:
  assumes "valid_config (config s)" "store_ok s"
  obtains sets k where "cache s = Some sets"
    "unat (GET_INDEX (config s) addr) < length sets"
    "set_ok (config s) (sets ! unat (GET_INDEX (config s) addr))"
    "list_all (set_ok (config s)) sets"
    "int (length sets) = set_num (config s)"
    "shift_defined (bits_for_offset (config s) + bits_for_index (config s))"
    "shift_defined (bits_for_offset (config s))"
    "associativity (config s) = 2 ^ k" "k \<le> 6"
proof -
  let ?c = "config s"
  from assms(1) obtain a b k where g:
    "associativity ?c = 2 ^ k" "b + k \<le> a" "a \<le> 30" "k \<le> 6"
    "set_num ?c = 2 ^ (a - b - k)"
    "bits_for_offset ?c = int b" "bits_for_index ?c = int (a - b - k)"
    by (rule valid_config_geometry)
  from assms(2) obtain sets where sets: "cache s = Some sets"
    "int (length sets) = set_num ?c" "list_all (set_ok ?c) sets"
    by (auto simp: store_ok_def split: option.splits)
  from sets(2) g(5) have len: "length sets = 2 ^ (a - b - k)"
    by (metis of_nat_eq_iff of_nat_numeral of_nat_power)
  have "unat (GET_INDEX ?c addr) < 2 ^ (a - b - k)"
    unfolding decode_fields(2) [OF g(6,7)] by (rule index_bound)
  with len have idx: "unat (GET_INDEX ?c addr) < length sets" by simp
  with sets(3) have "set_ok ?c (sets ! unat (GET_INDEX ?c addr))"
    by (simp add: list_all_length)
  moreover have "shift_defined (bits_for_offset ?c + bits_for_index ?c)"
    "shift_defined (bits_for_offset ?c)"
    using g(2,3) by (simp_all add: shift_defined_def g(6,7))
  ultimately show thesis
    using sets idx g(1,4) by (intro that [of sets k]) simp_all
qed

lemma access_cache_hit:
  fixes s :: sim_state and addr :: addr_t
  defines "c \<equiv> config s"
  defines "idx \<equiv> unat (GET_INDEX c addr)"
  defines "tg \<equiv> GET_TAG c addr"
  assumes valid: "valid_config (config s)" and ok: "store_ok s"
    and sets: "cache s = Some sets"
    and match: "\<exists>j<length (cache_line (sets ! idx)).
       tg = tag (cache_line (sets ! idx) ! j) \<and> valid (cache_line (sets ! idx) ! j) \<noteq> 0"
  shows "\<exists>h st'. access_cache s addr rnd =
       Inr (Hit h, s\<lparr>cache := Some (sets[idx := st']),
                      total_access_times := total_access_times s + 1,
                      total_hit_times := total_hit_times s + 1\<rparr>) \<and>
     0 \<le> h \<and> nat h < length (cache_line (sets ! idx)) \<and>
     tg = tag (cache_line (sets ! idx) ! nat h) \<and>
     valid (cache_line (sets ! idx) ! nat h) \<noteq> 0 \<and>
     cache_line st' = cache_line (sets ! idx) \<and>
     fifo_pointer st' = fifo_pointer (sets ! idx) \<and>
     (if policy c = POLICY_PLRU
      then update_plru_victim_way c (sets ! idx) (word_of_int h) = Inr st'
      else st' = sets ! idx)"
proof -
  define st where "st = sets ! idx"
  from valid ok obtain sets' k where ctx:
    "cache s = Some sets'" "unat (GET_INDEX (config s) addr) < length sets'"
    "set_ok (config s) (sets' ! unat (GET_INDEX (config s) addr))"
    "shift_defined (bits_for_offset (config s) + bits_for_index (config s))"
    "shift_defined (bits_for_offset (config s))"
    "associativity (config s) = 2 ^ k" "k \<le> 6"
    by (rule access_context)
  from ctx(1) sets have [simp]: "sets' = sets" by simp
  from ctx(2) have idx: "idx < length sets" by (simp add: idx_def c_def)
  from ctx(3) have sok: "set_ok c st" by (simp add: st_def idx_def c_def)
  from ctx(6) have k: "associativity c = 2 ^ k" by (simp add: c_def)
  from sok have len: "length (cache_line st) = 2 ^ k"
    by (simp only: set_ok_pow2 [OF k])
  let ?n = "word_of_int (associativity c) :: 32 word"
  have n: "unat ?n = length (cache_line st)"
    unfolding k len using ctx(7) by (rule assoc_word32)
  have l64: "length (cache_line st) \<le> 64"
    unfolding len using ctx(7) by (rule pow_le_64)
  have "unat ?n - unat (0 :: 32 word) = unat ?n" by simp
  from find_hit_way_result [OF n l64 this, of tg] match obtain h where
    h: "find_hit_way ?n (cache_line st) tg 0 = Inr h" "0 \<le> h" "nat h < length (cache_line st)"
      "tg = tag (cache_line st ! nat h)" "valid (cache_line st ! nat h) \<noteq> 0"
    by (auto simp: st_def split: if_splits)
  from h(2) have hn: "h \<noteq> - 1" by simp
  obtain st' where st': "cache_line st' = cache_line st" "fifo_pointer st' = fifo_pointer st"
    "if policy c = POLICY_PLRU then update_plru_victim_way c st (word_of_int h) = Inr st'
     else st' = st"
  proof (cases "policy c = POLICY_PLRU")
    case False
    then show thesis by (intro that [of st]) simp_all
  next
    case True
    show thesis
    proof (cases "k = 0")
      case True
      with k have "update_plru_victim_way c st (word_of_int h) = Inr st"
        by (simp add: update_plru_victim_way_def)
      with \<open>policy c = POLICY_PLRU\<close> show thesis by (intro that [of st]) simp_all
    next
      case False
      then have "0 < k" by simp
      from update_plru_refines [OF k this ctx(7), of st "word_of_int h"] obtain b' where
        "update_plru_victim_way c st (word_of_int h) = Inr (st\<lparr>plru_bits := b'\<rparr>)"
        by blast
      with \<open>policy c = POLICY_PLRU\<close> show thesis
        by (intro that [of "st\<lparr>plru_bits := b'\<rparr>"]) simp_all
    qed
  qed
  have "access_cache s addr rnd =
       Inr (Hit h, s\<lparr>cache := Some (sets[idx := st']),
                      total_access_times := total_access_times s + 1,
                      total_hit_times := total_hit_times s + 1\<rparr>)"
  proof (cases "policy c = POLICY_PLRU")
    case True
    with st'(3) have "update_plru_victim_way c st (word_of_int h) = Inr st'" by simp
    with True h(1) hn idx ctx(4,5) sets show ?thesis
      by (simp add: access_cache_def Let_def c_def [symmetric] idx_def [symmetric]
          tg_def [symmetric] st_def [symmetric])
  next
    case False
    with st'(3) have "st' = st" by simp
    then have "sets[idx := st'] = sets" by (simp add: st_def)
    with False h(1) hn idx ctx(4,5) sets show ?thesis
      by (simp add: access_cache_def Let_def c_def [symmetric] idx_def [symmetric]
          tg_def [symmetric] st_def [symmetric])
  qed
  with h(2-5) st' show ?thesis
    unfolding st_def by blast
qed

lemma access_cache_miss:
  fixes s :: sim_state and addr :: addr_t
  defines "c \<equiv> config s"
  defines "idx \<equiv> unat (GET_INDEX c addr)"
  defines "tg \<equiv> GET_TAG c addr"
  assumes valid: "valid_config (config s)" and ok: "store_ok s" and rnd: "0 \<le> rnd"
    and sets: "cache s = Some sets"
    and nomatch: "\<not> (\<exists>j<length (cache_line (sets ! idx)).
       tg = tag (cache_line (sets ! idx) ! j) \<and> valid (cache_line (sets ! idx) ! j) \<noteq> 0)"
  shows "\<exists>v st'. select_victim c (sets ! idx) rnd = Inr (v, st') \<and>
     uint v < associativity c \<and> cache_line st' = cache_line (sets ! idx) \<and> set_ok c st' \<and>
     access_cache s addr rnd =
       Inr (Miss (uint v),
            s\<lparr>cache := Some (sets[idx := st'\<lparr>cache_line :=
                   (cache_line (sets ! idx))[unat v := \<lparr>valid = 1, tag = tg\<rparr>]\<rparr>]),
              total_access_times := total_access_times s + 1\<rparr>)"
proof -
  define st where "st = sets ! idx"
  from valid ok obtain sets' k where ctx:
    "cache s = Some sets'" "unat (GET_INDEX (config s) addr) < length sets'"
    "set_ok (config s) (sets' ! unat (GET_INDEX (config s) addr))"
    "shift_defined (bits_for_offset (config s) + bits_for_index (config s))"
    "shift_defined (bits_for_offset (config s))"
    "associativity (config s) = 2 ^ k" "k \<le> 6"
    by (rule access_context)
  from ctx(1) sets have [simp]: "sets' = sets" by simp
  from ctx(2) have idx: "idx < length sets" by (simp add: idx_def c_def)
  from ctx(3) have sok: "set_ok c st" by (simp add: st_def idx_def c_def)
  from ctx(6) have k: "associativity c = 2 ^ k" by (simp add: c_def)
  from sok have len: "length (cache_line st) = 2 ^ k"
    by (simp only: set_ok_pow2 [OF k])
  let ?n = "word_of_int (associativity c) :: 32 word"
  have n: "unat ?n = length (cache_line st)"
    unfolding k len using ctx(7) by (rule assoc_word32)
  have l64: "length (cache_line st) \<le> 64"
    unfolding len using ctx(7) by (rule pow_le_64)
  have "unat ?n - unat (0 :: 32 word) = unat ?n" by simp
  from find_hit_way_result [OF n l64 this, of tg] nomatch
  have h: "find_hit_way ?n (cache_line st) tg 0 = Inr (- 1)"
    by (auto simp: st_def split: if_splits)
  from valid have "valid_config c" by (simp add: c_def)
  from select_victim_ok [OF this sok rnd] obtain v st' where
    r: "select_victim c st rnd = Inr (v, st')" "uint v < associativity c"
      "cache_line st' = cache_line st" "set_ok c st'"
    by blast
  from r(2) have vk: "unat v < 2 ^ k"
    by (simp only: k uint_less_pow2)
  also have "(2::nat) ^ k \<le> 64" using ctx(7) by (rule pow_le_64)
  finally have v64: "unat v < 64" .
  have vw: "sint (ucast v :: 32 word) = uint v"
    using v64 by (rule victim_way_int)
  have nv: "nat (uint v) = unat v" by (simp only: unat_eq_nat_uint)
  have inb: "\<not> length (cache_line st') \<le> unat v"
    using vk by (simp add: r(3) len)
  have "access_cache s addr rnd =
       Inr (Miss (uint v),
            s\<lparr>cache := Some (sets[idx := st'\<lparr>cache_line :=
                   (cache_line st)[unat v := \<lparr>valid = 1, tag = tg\<rparr>]\<rparr>]),
              total_access_times := total_access_times s + 1\<rparr>)"
    using h idx ctx(4,5) sets r(1,2) inb
    by (simp add: access_cache_def Let_def c_def [symmetric] idx_def [symmetric]
        tg_def [symmetric] st_def [symmetric] vw nv r(3))
  with r show ?thesis
    unfolding st_def by blast
qed

lemma list_all_update:
  "list_all P xs \<Longrightarrow> P x \<Longrightarrow> list_all P (xs[i := x])"
  using set_update_subset_insert [of xs i x] by (auto simp: list_all_iff)

lemma store_ok_update:
  assumes "store_ok s" "cache s = Some sets" "set_ok (config s) st'"
  shows "store_ok (s\<lparr>cache := Some (sets[idx := st']), total_access_times := x\<rparr>)"
    and "store_ok (s\<lparr>cache := Some (sets[idx := st']), total_access_times := x,
           total_hit_times := y\<rparr>)"
  using assms by (simp_all add: store_ok_def list_all_update)

lemma access_cache_step:
  assumes valid: "valid_config (config s)" and ok: "store_ok s" and rnd: "0 \<le> rnd"
  shows "\<exists>r s'. access_cache s addr rnd = Inr (r, s') \<and> config s' = config s \<and>
     store_ok s' \<and> total_access_times s' = total_access_times s + 1 \<and>
     total_hit_times s' = total_hit_times s + (case r of Hit h \<Rightarrow> 1 | Miss v \<Rightarrow> 0)"
proof -
  let ?c = "config s"
  let ?idx = "unat (GET_INDEX ?c addr)"
  let ?tg = "GET_TAG ?c addr"
  from ok obtain sets where sets: "cache s = Some sets"
    by (auto simp: store_ok_def split: option.splits)
  let ?st = "sets ! ?idx"
  from valid ok obtain sets' k where ctx: "cache s = Some sets'"
    "set_ok ?c (sets' ! ?idx)"
    by (rule access_context)
  with sets have sok: "set_ok ?c ?st" by simp
  show ?thesis
  proof (cases "\<exists>j<length (cache_line ?st).
       ?tg = tag (cache_line ?st ! j) \<and> valid (cache_line ?st ! j) \<noteq> 0")
    case True
    from access_cache_hit [OF valid ok sets True, of rnd] obtain h st' where
      r: "access_cache s addr rnd =
         Inr (Hit h, s\<lparr>cache := Some (sets[?idx := st']),
                        total_access_times := total_access_times s + 1,
                        total_hit_times := total_hit_times s + 1\<rparr>)"
        "cache_line st' = cache_line ?st" "fifo_pointer st' = fifo_pointer ?st"
      by blast
    from sok r(2,3) have "set_ok ?c st'" by (simp add: set_ok_def)
    from store_ok_update(2) [OF ok sets this] r(1) show ?thesis
      by simp
  next
    case False
    from access_cache_miss [OF valid ok rnd sets False] obtain v st' where
      r: "uint (v :: 64 word) < associativity ?c" "cache_line st' = cache_line ?st"
        "set_ok ?c st'"
        "access_cache s addr rnd =
         Inr (Miss (uint v),
              s\<lparr>cache := Some (sets[?idx := st'\<lparr>cache_line :=
                     (cache_line ?st)[unat v := \<lparr>valid = 1, tag = ?tg\<rparr>]\<rparr>]),
                total_access_times := total_access_times s + 1\<rparr>)"
      by blast
    from r(2,3) have "set_ok ?c (st'\<lparr>cache_line :=
        (cache_line ?st)[unat v := \<lparr>valid = 1, tag = ?tg\<rparr>]\<rparr>)"
      by (simp add: set_ok_def)
    from store_ok_update(1) [OF ok sets this] r(4) show ?thesis
      by simp
  qed
qed

section \<open>Runs under the FIFO policy\<close>

lemma select_victim_rand_unused:
  "policy c \<noteq> POLICY_RANDOM \<Longrightarrow> select_victim c st rnd = select_victim c st 0"
  by (cases "policy c") (simp_all add: select_victim_def)

lemma access_cache_rand_unused:
  assumes "policy (config s) \<noteq> POLICY_RANDOM"
  shows "access_cache s addr rnd = access_cache s addr 0"
proof -
  have eq: "select_victim (config s) st rnd = select_victim (config s) st 0" for st
    using assms by (rule select_victim_rand_unused)
  show ?thesis
    unfolding access_cache_def Let_def eq by (rule refl)
qed

lemma fifo_access:
  fixes s :: sim_state and addr :: addr_t
  defines "i \<equiv> unat (GET_INDEX (config s) addr)"
  assumes valid: "valid_config (config s)" and fifo: "policy (config s) = POLICY_FIFO"
    and ok: "store_ok s" and sets: "cache s = Some sets"
  shows "\<exists>r s' sets'. access_cache s addr rnd = Inr (r, s') \<and> config s' = config s \<and>
     store_ok s' \<and> cache s' = Some sets' \<and> length sets' = length sets \<and>
     (\<forall>j. j \<noteq> i \<longrightarrow> sets' ! j = sets ! j) \<and>
     (case r of
        Hit h \<Rightarrow> sets' = sets
      | Miss v \<Rightarrow> v = uint (fifo_pointer (sets ! i)) \<and>
          uint (fifo_pointer (sets' ! i)) =
            (uint (fifo_pointer (sets ! i)) + 1) mod associativity (config s))"
proof -
  let ?c = "config s"
  let ?tg = "GET_TAG ?c addr"
  let ?st = "sets ! i"
  from fifo have unused: "access_cache s addr rnd = access_cache s addr 0"
    by (intro access_cache_rand_unused) simp
  have rnd: "(0::int) \<le> 0" by simp
  from valid ok obtain sets0 k where ctx: "cache s = Some sets0"
    "unat (GET_INDEX ?c addr) < length sets0" "set_ok ?c (sets0 ! unat (GET_INDEX ?c addr))"
    "associativity ?c = 2 ^ k" "k \<le> 6"
    by (rule access_context)
  with sets have i: "i < length sets" and sok: "set_ok ?c ?st"
    by (simp_all add: i_def)
  from sok have pk: "unat (fifo_pointer ?st) < 2 ^ k"
    by (simp only: set_ok_pow2 [OF ctx(4)])
  show ?thesis
  proof (cases "\<exists>j<length (cache_line ?st).
       ?tg = tag (cache_line ?st ! j) \<and> valid (cache_line ?st ! j) \<noteq> 0")
    case True
    from access_cache_hit [OF valid ok sets, of addr 0] True fifo obtain h where
      r: "access_cache s addr 0 =
         Inr (Hit h, s\<lparr>cache := Some (sets[i := ?st]),
                        total_access_times := total_access_times s + 1,
                        total_hit_times := total_hit_times s + 1\<rparr>)"
      unfolding i_def by auto
    have same: "sets[i := ?st] = sets" by simp
    from sok have "store_ok (s\<lparr>cache := Some (sets[i := ?st]),
        total_access_times := total_access_times s + 1,
        total_hit_times := total_hit_times s + 1\<rparr>)"
      by (intro store_ok_update(2) [OF ok sets])
    with r show ?thesis
      unfolding same unused by simp
  next
    case False
    from access_cache_miss [OF valid ok rnd sets, of addr] False obtain v st' where
      r: "select_victim ?c ?st 0 = Inr (v, st')" "set_ok ?c st'"
        "access_cache s addr 0 =
         Inr (Miss (uint v),
              s\<lparr>cache := Some (sets[i := st'\<lparr>cache_line :=
                     (cache_line ?st)[unat v := \<lparr>valid = 1, tag = ?tg\<rparr>]\<rparr>]),
                total_access_times := total_access_times s + 1\<rparr>)"
      unfolding i_def by blast
    from fifo_step [OF ctx(4,5) pk] obtain p' where
      f: "find_and_update_fifo_victim_way ?c ?st = Inr (fifo_pointer ?st, ?st\<lparr>fifo_pointer := p'\<rparr>)"
        "unat p' = (unat (fifo_pointer ?st) + 1) mod 2 ^ k"
      by blast
    from r(1) f(1) fifo have v: "v = fifo_pointer ?st" and st': "st' = ?st\<lparr>fifo_pointer := p'\<rparr>"
      by (simp_all add: select_victim_def)
    have "uint p' = int ((unat (fifo_pointer ?st) + 1) mod 2 ^ k)"
      by (simp only: uint_nat f(2))
    also have "\<dots> = (int (unat (fifo_pointer ?st)) + 1) mod 2 ^ k"
      by (simp only: zmod_int of_nat_add of_nat_1 of_nat_power of_nat_numeral)
    also have "\<dots> = (uint (fifo_pointer ?st) + 1) mod 2 ^ k"
      by (simp only: uint_nat)
    finally have p': "uint p' = (uint (fifo_pointer ?st) + 1) mod 2 ^ k" .
    let ?new = "st'\<lparr>cache_line := (cache_line ?st)[unat v := \<lparr>valid = 1, tag = ?tg\<rparr>]\<rparr>"
    from r(2) have "set_ok ?c ?new" by (simp add: set_ok_def st')
    then have "store_ok (s\<lparr>cache := Some (sets[i := ?new]),
        total_access_times := total_access_times s + 1\<rparr>)"
      by (intro store_ok_update(1) [OF ok sets])
    moreover have "uint (fifo_pointer (sets[i := ?new] ! i))
        = (uint (fifo_pointer ?st) + 1) mod associativity ?c"
      using i p' by (simp add: st' ctx(4))
    ultimately show ?thesis
      using r(3) v unfolding unused by simp
  qed
qed

lemma fifo_run:
  assumes "valid_config (config s)" "policy (config s) = POLICY_FIFO" "store_ok s"
    and "cache s = Some sets" "idx < length sets" "uint (fifo_pointer (sets ! idx)) = p"
  shows "\<exists>rs s' sets'. sim_cache s trace = Inr (rs, s') \<and> cache s' = Some sets' \<and>
     set_victims (config s) idx trace rs =
       map (\<lambda>n. (p + int n) mod associativity (config s))
         [0..<length (set_victims (config s) idx trace rs)] \<and>
     uint (fifo_pointer (sets' ! idx)) =
       (p + int (length (set_victims (config s) idx trace rs))) mod associativity (config s)"
  using assms
proof (induction trace arbitrary: s sets p)
  case Nil
  from Nil.prems(3,4,5) have "set_ok (config s) (sets ! idx)"
    by (simp add: store_ok_def list_all_length)
  with Nil.prems(6) have "p < associativity (config s)" "0 \<le> p"
    by (auto simp: set_ok_def)
  then have "p mod associativity (config s) = p" by simp
  with Nil.prems(4,6) show ?case by simp
next
  case (Cons a trace)
  obtain addr rnd where a: "a = (addr, rnd)" by (cases a)
  let ?A = "associativity (config s)"
  let ?i = "unat (GET_INDEX (config s) addr)"
  from Cons.prems(3,4,5) have "set_ok (config s) (sets ! idx)"
    by (simp add: store_ok_def list_all_length)
  with Cons.prems(6) have pr: "p < ?A" "0 \<le> p"
    by (auto simp: set_ok_def)
  from fifo_access [OF Cons.prems(1,2,3,4), of addr rnd] obtain r s1 sets1 where
    st: "access_cache s addr rnd = Inr (r, s1)" "config s1 = config s" "store_ok s1"
      "cache s1 = Some sets1" "length sets1 = length sets"
      "\<forall>j. j \<noteq> ?i \<longrightarrow> sets1 ! j = sets ! j"
      "case r of Hit h \<Rightarrow> sets1 = sets
       | Miss v \<Rightarrow> v = uint (fifo_pointer (sets ! ?i)) \<and>
           uint (fifo_pointer (sets1 ! ?i)) = (uint (fifo_pointer (sets ! ?i)) + 1) mod ?A"
    by blast
  define p1 where "p1 = uint (fifo_pointer (sets1 ! idx))"
  from Cons.prems(1,2,5) st(2,5) have pre: "valid_config (config s1)"
    "policy (config s1) = POLICY_FIFO" "idx < length sets1"
    by simp_all
  from Cons.IH [OF pre(1,2) st(3,4) pre(3) p1_def [symmetric]] obtain rs s' sets' where
    ih: "sim_cache s1 trace = Inr (rs, s')" "cache s' = Some sets'"
      "set_victims (config s) idx trace rs =
         map (\<lambda>n. (p1 + int n) mod ?A) [0..<length (set_victims (config s) idx trace rs)]"
      "uint (fifo_pointer (sets' ! idx)) =
         (p1 + int (length (set_victims (config s) idx trace rs))) mod ?A"
    unfolding st(2) by blast
  let ?vs = "set_victims (config s) idx trace rs"
  have run: "sim_cache s (a # trace) = Inr (r # rs, s')"
    using st(1) ih(1) by (simp add: a)
  have "set_victims (config s) idx (a # trace) (r # rs) =
      map (\<lambda>n. (p + int n) mod ?A)
        [0..<length (set_victims (config s) idx (a # trace) (r # rs))] \<and>
    uint (fifo_pointer (sets' ! idx)) =
      (p + int (length (set_victims (config s) idx (a # trace) (r # rs)))) mod ?A"
  proof (cases "\<exists>v. r = Miss v \<and> ?i = idx")
    case True
    then obtain v where v: "r = Miss v" "?i = idx" by blast
    with st(7) Cons.prems(6) have "v = p" and p1: "p1 = (p + 1) mod ?A"
      by (simp_all add: p1_def)
    have vs: "set_victims (config s) idx (a # trace) (r # rs) = p # ?vs"
      using v \<open>v = p\<close> by (simp add: a)
    have shift: "(p1 + int n) mod ?A = (p + int (Suc n)) mod ?A" for n
    proof -
      have "((p + 1) mod ?A + int n) mod ?A = (p + 1 + int n) mod ?A"
        by (rule mod_add_left_eq)
      also have "p + 1 + int n = p + int (Suc n)" by simp
      finally show ?thesis unfolding p1 .
    qed
    have "map (\<lambda>n. (p + int n) mod ?A) [0..<Suc (length ?vs)]
        = (p + int 0) mod ?A # map (\<lambda>n. (p + int (Suc n)) mod ?A) [0..<length ?vs]"
      by (simp only: map_upt_Suc)
    also have "\<dots> = p # map (\<lambda>n. (p1 + int n) mod ?A) [0..<length ?vs]"
      using pr by (simp add: shift)
    also have "\<dots> = p # ?vs"
      using ih(3) by simp
    finally have "p # ?vs = map (\<lambda>n. (p + int n) mod ?A) [0..<Suc (length ?vs)]"
      by simp
    moreover have "uint (fifo_pointer (sets' ! idx)) = (p + int (Suc (length ?vs))) mod ?A"
      unfolding ih(4) by (rule shift)
    ultimately show ?thesis
      unfolding vs by simp
  next
    case False
    have same: "set_victims (config s) idx (a # trace) (r # rs) = ?vs"
      using False by (cases r) (simp_all add: a)
    have "sets1 ! idx = sets ! idx"
    proof (cases r)
      case (Hit h)
      with st(7) show ?thesis by simp
    next
      case (Miss v)
      with False have "idx \<noteq> ?i" by auto
      with st(6) show ?thesis by simp
    qed
    with Cons.prems(6) have "p1 = p" by (simp add: p1_def)
    with ih(3,4) show ?thesis
      unfolding same by simp
  qed
  with run ih(2) show ?case by blast
qed

section \<open>Concrete runs\<close>

text \<open>
  With a zero block size \<^verbatim>\<open>init_cache\<close> traps on its first division, before
  \<^verbatim>\<open>check_config\<close> can report the missing parameter.
\<close>

lemma init_cache_zero_block_size:
  "init_cache (\<lambda>k. True) (parsed_arguments 16 0 1 POLICY_FIFO) =
     Aborted ArithmeticFault (parsed_arguments 16 0 1 POLICY_FIFO)"
  by code_simp

text \<open>
  The direct-mapped store: what \<^verbatim>\<open>init_cache\<close> returns, the first access to
  address 0 (a miss), and every later one (a hit), for any number of them.
\<close>

lemma direct_mapped_init:
  "init_cache (\<lambda>k. True) (parsed_arguments 16 4 1 POLICY_FIFO) = Returned (direct_mapped_state 0 0 0)"
  by code_simp

lemma direct_mapped_cold:
  "access_cache (direct_mapped_state 0 0 0) 0 0 = Inr (Miss 0, direct_mapped_state 1 1 0)"
  by code_simp

lemma direct_mapped_warm:
  "access_cache (direct_mapped_state 1 x y) 0 0 = Inr (Hit 0, direct_mapped_state 1 (x + 1) (y + 1))"
  by (simp add: access_cache_def direct_mapped_state_def shift_defined_def GET_INDEX_def
      GET_TAG_def GET_BITS_def BIT_MASK_def ADDR_WIDTH_def find_hit_way.simps)

lemma direct_mapped_warm_run:
  "sim_cache (direct_mapped_state 1 x y) (replicate n (0, 0)) =
     Inr (replicate n (Hit 0), direct_mapped_state 1 (x + of_nat n) (y + of_nat n))"
proof (induction n arbitrary: x y)
  case 0
  show ?case by simp
next
  case (Suc n)
  show ?case
    by (simp add: direct_mapped_warm Suc.IH add.assoc add.commute [of 1])
qed

text \<open>\<open>2 ^ 64 - 1\<close> increments take a 64-bit counter from 1 to 0.\<close>

lemma word64_wrap:
  "(of_nat (2 ^ 64 - 1) :: 64 word) = - 1" "(1 + of_nat (2 ^ 64 - 1) :: 64 word) = 0"
proof -
  have "(of_nat (2 ^ 64 - 1) :: 64 word) = of_nat (2 ^ 64) - of_nat 1"
    by (rule of_nat_diff) simp
  also have "\<dots> = 2 ^ 64 - 1"
    by (simp only: of_nat_power of_nat_numeral of_nat_1)
  also have "(2 ^ 64 :: 64 word) = 0" by simp
  finally show "(of_nat (2 ^ 64 - 1) :: 64 word) = - 1" by simp
  then show "(1 + of_nat (2 ^ 64 - 1) :: 64 word) = 0" by (simp only:) simp
qed

text \<open>The eight-way stores are the ones \<^verbatim>\<open>init_cache\<close> and a run build.\<close>

lemma eight_way_init:
  "init_cache (\<lambda>k. True) (parsed_arguments 64 4 8 POLICY_PLRU) = Returned (eight_way_state POLICY_PLRU)"
  "init_cache (\<lambda>k. True) (parsed_arguments 64 4 8 POLICY_FIFO) = Returned (eight_way_state POLICY_FIFO)"
  "init_cache (\<lambda>k. True) (parsed_arguments 64 4 8 POLICY_RANDOM) = Returned (eight_way_state POLICY_RANDOM)"
  by code_simp+

lemma warm_fifo_reached:
  "map_sum id snd (sim_cache (eight_way_state POLICY_FIFO)
      [(0, 0), (8, 0), (16, 0), (24, 0), (32, 0), (40, 0), (48, 0), (56, 0)])
     = Inr warm_fifo_state"
  by code_simp

text \<open>
  The two scenarios of the specification: direct-mapped, five accesses with one hit;
  two-way FIFO with one set, four accesses and no hit.
\<close>

lemma direct_mapped_scenario:
  "map_sum id (\<lambda>r. (fst r, total_access_times (snd r), total_hit_times (snd r)))
     (sim_cache (direct_mapped_state 0 0 0) [(0x0, 0), (0x4, 0), (0x8, 0), (0xC, 0), (0x0, 0)])
   = Inr ([Miss 0, Miss 0, Miss 0, Miss 0, Hit 0], 5, 1)"
  by code_simp

lemma fifo_two_way_scenario:
  "(case init_cache (\<lambda>k. True) (parsed_arguments 8 4 2 POLICY_FIFO) of
      Returned s \<Rightarrow>
        map_sum id (\<lambda>r. (fst r, total_access_times (snd r), total_hit_times (snd r)))
          (sim_cache s [(0x0, 0), (0x4, 0), (0x8, 0), (0x0, 0)])
    | Aborted e s \<Rightarrow> Inl e)
   = Inr ([Miss 0, Miss 1, Miss 0, Miss 1], 4, 0)"
  by code_simp

section \<open>What a successful initialisation establishes\<close>

lemma alloc_sets_result:
  assumes "alloc_sets alloc_ok n assoc i acc = Some sets" "unat n - unat i = l"
  shows "sets = acc @ replicate l (empty_set assoc)"
  using assms
proof (induction l arbitrary: i acc)
  case 0
  then have "\<not> i < n" by (simp add: word_less_nat_alt)
  with 0(1) show ?case
    by (subst (asm) alloc_sets.simps) simp
next
  case (Suc l)
  note step = loop_counter_step [OF Suc.prems(2)]
  from Suc.prems(1) step(1)
  have "alloc_sets alloc_ok n assoc (i + 1) (acc @ [empty_set assoc]) = Some sets"
    by (subst (asm) alloc_sets.simps) (simp split: if_splits)
  from Suc.IH [OF this step(2)] show ?case
    by (simp add: replicate_app_Cons_same)
qed

lemma init_geometry_idem:
  assumes "init_geometry c0 = Inr c"
  shows "init_geometry c = Inr c" "total_size c = total_size c0"
    "block_size c = block_size c0" "associativity c = associativity c0"
    "policy c = policy c0"
  using assms
  by (auto simp: init_geometry_def split: sum.splits option.splits)

lemma init_cache_returned:
  assumes ret: "init_cache alloc_ok s0 = Returned s"
    and pos: "0 < total_size (config s0)" "total_size (config s0) < 2 ^ 31"
      "0 < block_size (config s0)" "block_size (config s0) < 2 ^ 31"
      "0 < associativity (config s0)" "associativity (config s0) < 2 ^ 31"
  shows "valid_config (config s) \<and> store_ok s \<and>
     total_access_times s = total_access_times s0 \<and> total_hit_times s = total_hit_times s0"
proof -
  from ret obtain c sets where
    g: "init_geometry (config s0) = Inr c" and
    al: "alloc_sets alloc_ok (word_of_int (set_num c)) (associativity c) 0 [] = Some sets" and
    chk: "check_config c = Inr ()" and
    s: "s = s0\<lparr>config := c, cache := Some sets\<rparr>"
    by (auto simp: init_cache_def Let_def split: sum.splits option.splits if_splits)
  from init_geometry_idem [OF g] pos chk have valid: "valid_config c"
    by (simp add: valid_config_def)
  then obtain a b k where geo: "associativity c = 2 ^ k" "k \<le> 6" "a \<le> 30"
    "set_num c = 2 ^ (a - b - k)"
    by (rule valid_config_geometry)
  let ?m = "a - b - k"
  have "(2::nat) ^ ?m \<le> 2 ^ 30"
    using geo(3) by (intro power_increasing) simp_all
  then have "(2::nat) ^ ?m < 2 ^ 32" by simp
  then have "unat (word_of_nat (2 ^ ?m) :: 32 word) = 2 ^ ?m"
    by (simp only: unat_of_nat) simp
  then have n: "unat (word_of_int (set_num c) :: 32 word) = 2 ^ ?m"
    by (simp add: geo(4))
  have "unat (word_of_int (set_num c) :: 32 word) - unat (0 :: 32 word) = 2 ^ ?m"
    using n by simp
  from alloc_sets_result [OF al this]
  have sets: "sets = replicate (2 ^ ?m) (empty_set (associativity c))" by simp
  have len: "int (length sets) = set_num c"
    by (simp add: sets geo(4))
  have "unat (word_of_int (associativity c) :: 64 word) = 2 ^ k"
    using unat_pow2_64 [OF geo(2)] by (simp add: geo(1))
  then have "set_ok c (empty_set (associativity c))"
    unfolding set_ok_pow2 [OF geo(1)] by (simp add: empty_set_def)
  then have "list_all (set_ok c) sets"
    by (simp add: sets list_all_iff)
  with len have "store_ok s"
    by (simp add: store_ok_def s)
  with valid show ?thesis by (simp add: s)
qed

lemma sim_cache_succeeds:
  assumes "valid_config (config s)" "store_ok s" "\<forall>(addr, rnd)\<in>set trace. 0 \<le> rnd"
  shows "\<exists>rs s'. sim_cache s trace = Inr (rs, s') \<and> length rs = length trace \<and>
     config s' = config s \<and> store_ok s'"
  using assms
proof (induction trace arbitrary: s)
  case Nil
  then show ?case by simp
next
  case (Cons a trace)
  obtain addr rnd where a: "a = (addr, rnd)" by (cases a)
  with Cons.prems(3) have "0 \<le> rnd" and rest: "\<forall>(addr, rnd)\<in>set trace. 0 \<le> rnd"
    by simp_all
  from access_cache_step [OF Cons.prems(1,2) this(1), of addr] obtain r s1 where
    st: "access_cache s addr rnd = Inr (r, s1)" "config s1 = config s" "store_ok s1"
    by blast
  from Cons.prems(1) st(2) have "valid_config (config s1)" by simp
  from Cons.IH [OF this st(3) rest] obtain rs s' where
    "sim_cache s1 trace = Inr (rs, s')" "length rs = length trace"
    "config s' = config s1" "store_ok s'"
    by blast
  with st(1,2) show ?case by (simp add: a)
qed

section \<open>The claims\<close>

subsection \<open>Configuration is checked after the store is allocated\<close>

text \<open>
  C1. The claim is that an invalid configuration is reported before the store is
  allocated. For \<^verbatim>\<open>-s 6 -b 2 -a 1 -p FIFO\<close>, with every allocation succeeding,
  \<^verbatim>\<open>init_cache\<close> stops with the error of the power-of-two check only after it has
  allocated three sets of one line each; they are still allocated when the run stops.
\<close>

theorem init_cache_allocates_before_check:
  "init_cache (\<lambda>k. True) (parsed_arguments 6 2 1 POLICY_FIFO) =
     Aborted NotPowerOfTwo
       \<lparr>config = \<lparr>total_size = 6, block_size = 2, block_num = 3, associativity = 1,
                   policy = POLICY_FIFO, set_num = 3, bits_for_offset = 1,
                   bits_for_index = 1, bits_for_tag = 30\<rparr>,
        cache = Some [empty_set 1, empty_set 1, empty_set 1],
        total_access_times = 0, total_hit_times = 0\<rparr>"
  by code_simp

subsection \<open>Hit and miss of one access\<close>

text \<open>
  C2. For a valid configuration, a store as \<^verbatim>\<open>init_cache\<close> builds and accesses
  keep it, and any address: the access is a hit exactly when a line of the set the
  decoded index selects is valid and holds the decoded tag. On a hit, the hit counter
  grows by one and the lines of every set are the same (only the policy state of that
  set may change). On a miss, the way that the policy's victim selection returns gets
  the decoded tag and becomes valid; every other line, every other set and the hit
  counter stay as they are.
\<close>

theorem access_cache_hit_iff_match:
  fixes s :: sim_state and addr :: addr_t
  defines "c \<equiv> config s"
  defines "idx \<equiv> unat (GET_INDEX c addr)"
  defines "tg \<equiv> GET_TAG c addr"
  assumes "valid_config (config s)" and "store_ok s" and "0 \<le> rnd"
    and "cache s = Some sets"
  shows "if \<exists>j<length (cache_line (sets ! idx)).
          valid (cache_line (sets ! idx) ! j) \<noteq> 0 \<and> tag (cache_line (sets ! idx) ! j) = tg
     then \<exists>h st'. access_cache s addr rnd =
              Inr (Hit h, s\<lparr>cache := Some (sets[idx := st']),
                             total_access_times := total_access_times s + 1,
                             total_hit_times := total_hit_times s + 1\<rparr>) \<and>
            0 \<le> h \<and> nat h < length (cache_line (sets ! idx)) \<and>
            valid (cache_line (sets ! idx) ! nat h) \<noteq> 0 \<and>
            tag (cache_line (sets ! idx) ! nat h) = tg \<and>
            cache_line st' = cache_line (sets ! idx)
     else \<exists>v st'. select_victim c (sets ! idx) rnd = Inr (v, st') \<and>
            uint v < associativity c \<and>
            access_cache s addr rnd =
              Inr (Miss (uint v),
                   s\<lparr>cache := Some (sets[idx := st'\<lparr>cache_line :=
                          (cache_line (sets ! idx))[unat v := \<lparr>valid = 1, tag = tg\<rparr>]\<rparr>]),
                     total_access_times := total_access_times s + 1\<rparr>)"
proof (cases "\<exists>j<length (cache_line (sets ! idx)).
    tg = tag (cache_line (sets ! idx) ! j) \<and> valid (cache_line (sets ! idx) ! j) \<noteq> 0")
  case True
  from access_cache_hit [OF assms(4,5,7), of addr rnd] True obtain h st' where
    r: "access_cache s addr rnd =
        Inr (Hit h, s\<lparr>cache := Some (sets[idx := st']),
                       total_access_times := total_access_times s + 1,
                       total_hit_times := total_hit_times s + 1\<rparr>)"
      "0 \<le> h" "nat h < length (cache_line (sets ! idx))"
      "tg = tag (cache_line (sets ! idx) ! nat h)"
      "valid (cache_line (sets ! idx) ! nat h) \<noteq> 0"
      "cache_line st' = cache_line (sets ! idx)"
    unfolding c_def idx_def tg_def by blast
  from r(4) have "tag (cache_line (sets ! idx) ! nat h) = tg" by simp
  with r(1,2,3,5,6)
  have res: "\<exists>h st'. access_cache s addr rnd =
      Inr (Hit h, s\<lparr>cache := Some (sets[idx := st']),
                     total_access_times := total_access_times s + 1,
                     total_hit_times := total_hit_times s + 1\<rparr>) \<and>
      0 \<le> h \<and> nat h < length (cache_line (sets ! idx)) \<and>
      valid (cache_line (sets ! idx) ! nat h) \<noteq> 0 \<and>
      tag (cache_line (sets ! idx) ! nat h) = tg \<and>
      cache_line st' = cache_line (sets ! idx)"
    by blast
  from True have m: "\<exists>j<length (cache_line (sets ! idx)).
      valid (cache_line (sets ! idx) ! j) \<noteq> 0 \<and> tag (cache_line (sets ! idx) ! j) = tg"
    by auto
  show ?thesis by (subst if_P [OF m]) (rule res)
next
  case False
  from access_cache_miss [OF assms(4,5,6,7), of addr] False
  have res: "\<exists>v st'. select_victim c (sets ! idx) rnd = Inr (v, st') \<and>
      uint v < associativity c \<and>
      access_cache s addr rnd =
        Inr (Miss (uint v),
             s\<lparr>cache := Some (sets[idx := st'\<lparr>cache_line :=
                    (cache_line (sets ! idx))[unat v := \<lparr>valid = 1, tag = tg\<rparr>]\<rparr>]),
               total_access_times := total_access_times s + 1\<rparr>)"
    unfolding c_def idx_def tg_def by blast
  from False have m: "\<not> (\<exists>j<length (cache_line (sets ! idx)).
      valid (cache_line (sets ! idx) ! j) \<noteq> 0 \<and> tag (cache_line (sets ! idx) ! j) = tg)"
    by auto
  show ?thesis by (subst if_not_P [OF m]) (rule res)
qed

theorem access_cache_hit_iff_match_witness:
  "valid_config (config (eight_way_state POLICY_PLRU)) \<and>
   store_ok (eight_way_state POLICY_PLRU) \<and> (0::int) \<le> 0 \<and>
   cache (eight_way_state POLICY_PLRU) = Some [empty_set 8, empty_set 8] \<and>
   (\<exists>v st'. select_victim (config (eight_way_state POLICY_PLRU)) (empty_set 8) 0 = Inr (v, st') \<and>
      uint v < 8 \<and>
      access_cache (eight_way_state POLICY_PLRU) 12 0 =
        Inr (Miss (uint v),
             eight_way_state POLICY_PLRU
               \<lparr>cache := Some [empty_set 8,
                   st'\<lparr>cache_line := (cache_line (empty_set 8))[unat v := \<lparr>valid = 1, tag = 1\<rparr>]\<rparr>],
                total_access_times := 1\<rparr>))"
proof -
  let ?s = "eight_way_state POLICY_PLRU"
  have v: "valid_config (config ?s)" by code_simp
  have ok: "store_ok ?s" by code_simp
  have r: "(0::int) \<le> 0" by simp
  have c: "cache ?s = Some [empty_set 8, empty_set 8]"
    by (simp add: eight_way_state_def)
  have idx: "unat (GET_INDEX (config ?s) 12) = 1" by code_simp
  have tg: "GET_TAG (config ?s) 12 = 1" by code_simp
  have nomatch: "\<not> (\<exists>j<length (cache_line ([empty_set 8, empty_set 8] ! 1)).
      valid (cache_line ([empty_set 8, empty_set 8] ! 1) ! j) \<noteq> 0 \<and>
      tag (cache_line ([empty_set 8, empty_set 8] ! 1) ! j) = 1)"
    by (simp add: empty_set_def empty_line_def)
  from access_cache_hit_iff_match [OF v ok r c, of 12]
  show ?thesis
    using v ok c unfolding idx tg if_not_P [OF nomatch]
    by (simp add: eight_way_state_def eight_way_config_def)
qed

subsection \<open>Pseudo-LRU victim selection\<close>

text \<open>
  C3. For a valid configuration with associativity \<open>2 ^ k > 1\<close> and any tree bits,
  \<^verbatim>\<open>find_and_updata_plru_victim_way\<close> returns the way and leaves the bits that
  the walk of the specification gives: \<open>k\<close> levels from node 0, reading the
  node's bit, flipping it, descending to child \<open>2 * i + 1 + bit\<close>, the bits read
  forming the way, most significant first. Only \<^verbatim>\<open>plru_bits\<close> changes. For
  associativity 1 it returns way 0 and the set as it was.
\<close>

theorem plru_select_victim_refines:
  assumes "valid_config c" and "associativity c = 2 ^ k"
  shows "(1 < associativity c \<longrightarrow>
           (\<exists>v bits'. find_and_updata_plru_victim_way c st = Inr (v, st\<lparr>plru_bits := bits'\<rparr>) \<and>
              unat v = fst (spec_select_victim k (bit (plru_bits st))) \<and>
              bit bits' = snd (spec_select_victim k (bit (plru_bits st))))) \<and>
         (associativity c = 1 \<longrightarrow> find_and_updata_plru_victim_way c st = Inr (0, st))"
proof (intro conjI impI)
  assume "1 < associativity c"
  with valid_config_levels [OF assms] have "0 < k" "k \<le> 6" by simp_all
  with assms(2) show "\<exists>v bits'. find_and_updata_plru_victim_way c st = Inr (v, st\<lparr>plru_bits := bits'\<rparr>) \<and>
      unat v = fst (spec_select_victim k (bit (plru_bits st))) \<and>
      bit bits' = snd (spec_select_victim k (bit (plru_bits st)))"
    by (rule find_plru_refines)
next
  assume "associativity c = 1"
  then show "find_and_updata_plru_victim_way c st = Inr (0, st)"
    by (simp add: find_and_updata_plru_victim_way_def)
qed

theorem plru_select_victim_refines_witness:
  "valid_config (eight_way_config POLICY_PLRU) \<and>
   associativity (eight_way_config POLICY_PLRU) = 2 ^ 3 \<and>
   1 < associativity (eight_way_config POLICY_PLRU) \<and>
   (\<exists>v bits'. find_and_updata_plru_victim_way (eight_way_config POLICY_PLRU)
        (empty_set 8\<lparr>plru_bits := 5\<rparr>) = Inr (v, empty_set 8\<lparr>plru_bits := 5, plru_bits := bits'\<rparr>) \<and>
      unat v = fst (spec_select_victim 3 (bit (plru_bits (empty_set 8\<lparr>plru_bits := 5\<rparr>)))) \<and>
      bit bits' = snd (spec_select_victim 3 (bit (plru_bits (empty_set 8\<lparr>plru_bits := 5\<rparr>)))))"
proof -
  have v: "valid_config (eight_way_config POLICY_PLRU)" by code_simp
  have k: "associativity (eight_way_config POLICY_PLRU) = 2 ^ 3"
    by (simp add: eight_way_config_def)
  have a: "1 < associativity (eight_way_config POLICY_PLRU)"
    by (simp add: eight_way_config_def)
  from plru_select_victim_refines [OF v k, of "empty_set 8\<lparr>plru_bits := 5\<rparr>"] a
  show ?thesis using v k by blast
qed

subsection \<open>Pseudo-LRU update on a hit\<close>

text \<open>
  C4. For a valid configuration with associativity \<open>2 ^ k > 1\<close>, any tree bits and
  any hit way, \<^verbatim>\<open>update_plru_victim_way\<close> leaves the bits that the walk of the
  specification gives: \<open>k\<close> levels from node 0, the direction being the next
  decision bit of the way, most significant first, the node's bit set to
  \<open>1 - direction\<close>, descending to child \<open>2 * i + 1 + direction\<close>. For
  associativity 1 the set is returned as it was. The theorem holds for every 32-bit
  \<^verbatim>\<open>hit_way\<close>, the ways below the associativity among them.
\<close>

theorem plru_on_hit_refines:
  assumes "valid_config c" and "associativity c = 2 ^ k"
  shows "(1 < associativity c \<longrightarrow>
           (\<exists>bits'. update_plru_victim_way c st hit_way = Inr (st\<lparr>plru_bits := bits'\<rparr>) \<and>
              bit bits' = spec_on_hit k (unat hit_way) (bit (plru_bits st)))) \<and>
         (associativity c = 1 \<longrightarrow> update_plru_victim_way c st hit_way = Inr st)"
proof (intro conjI impI)
  assume "1 < associativity c"
  with valid_config_levels [OF assms] have "0 < k" "k \<le> 6" by simp_all
  with assms(2) show "\<exists>bits'. update_plru_victim_way c st hit_way = Inr (st\<lparr>plru_bits := bits'\<rparr>) \<and>
      bit bits' = spec_on_hit k (unat hit_way) (bit (plru_bits st))"
    by (rule update_plru_refines)
next
  assume "associativity c = 1"
  then show "update_plru_victim_way c st hit_way = Inr st"
    by (simp add: update_plru_victim_way_def)
qed

theorem plru_on_hit_refines_witness:
  "valid_config (eight_way_config POLICY_PLRU) \<and>
   associativity (eight_way_config POLICY_PLRU) = 2 ^ 3 \<and>
   1 < associativity (eight_way_config POLICY_PLRU) \<and>
   (\<exists>bits'. update_plru_victim_way (eight_way_config POLICY_PLRU)
        (empty_set 8\<lparr>plru_bits := 5\<rparr>) 6 = Inr (empty_set 8\<lparr>plru_bits := 5, plru_bits := bits'\<rparr>) \<and>
      bit bits' = spec_on_hit 3 (unat (6 :: 32 word)) (bit (plru_bits (empty_set 8\<lparr>plru_bits := 5\<rparr>))))"
proof -
  have v: "valid_config (eight_way_config POLICY_PLRU)" by code_simp
  have k: "associativity (eight_way_config POLICY_PLRU) = 2 ^ 3"
    by (simp add: eight_way_config_def)
  have a: "1 < associativity (eight_way_config POLICY_PLRU)"
    by (simp add: eight_way_config_def)
  from plru_on_hit_refines [OF v k, of "empty_set 8\<lparr>plru_bits := 5\<rparr>" 6] a
  show ?thesis using v k by blast
qed

subsection \<open>Pseudo-LRU never picks the same victim twice in a row\<close>

text \<open>
  C5. For a valid configuration with associativity at least 2 and any tree bits, two
  victim selections in a row on one set, with no hit update between them, both return,
  and the second way differs from the first.
\<close>

theorem plru_anti_thrash:
  assumes "valid_config c" and "2 \<le> associativity c"
  shows "\<exists>w1 s1 w2 s2.
     find_and_updata_plru_victim_way c st = Inr (w1, s1) \<and>
     find_and_updata_plru_victim_way c s1 = Inr (w2, s2) \<and> w2 \<noteq> w1"
proof -
  from assms(1) obtain k where k: "associativity c = 2 ^ k"
    by (rule valid_config_assoc)
  with valid_config_levels [OF assms(1) k] assms(2) have kb: "0 < k" "k \<le> 6" by simp_all
  from find_plru_refines [OF k kb, of st] obtain w1 b1 where
    r1: "find_and_updata_plru_victim_way c st = Inr (w1, st\<lparr>plru_bits := b1\<rparr>)"
      "unat w1 = fst (spec_select_victim k (bit (plru_bits st)))"
      "bit b1 = snd (spec_select_victim k (bit (plru_bits st)))"
    by blast
  from find_plru_refines [OF k kb, of "st\<lparr>plru_bits := b1\<rparr>"] obtain w2 b2 where
    r2: "find_and_updata_plru_victim_way c (st\<lparr>plru_bits := b1\<rparr>)
         = Inr (w2, st\<lparr>plru_bits := b1, plru_bits := b2\<rparr>)"
      "unat w2 = fst (spec_select_victim k (bit b1))"
    by auto
  from r1(2,3) r2(2) spec_select_twice_differ [OF kb(1), of "bit (plru_bits st)"]
  have "unat w2 \<noteq> unat w1" by simp
  then have "w2 \<noteq> w1" by auto
  with r1(1) r2(1) show ?thesis by blast
qed

theorem plru_anti_thrash_witness:
  "valid_config (eight_way_config POLICY_PLRU) \<and>
   2 \<le> associativity (eight_way_config POLICY_PLRU) \<and>
   (\<exists>w1 s1 w2 s2.
      find_and_updata_plru_victim_way (eight_way_config POLICY_PLRU)
        (empty_set 8\<lparr>plru_bits := 5\<rparr>) = Inr (w1, s1) \<and>
      find_and_updata_plru_victim_way (eight_way_config POLICY_PLRU) s1 = Inr (w2, s2) \<and>
      w2 \<noteq> w1)"
proof -
  have v: "valid_config (eight_way_config POLICY_PLRU)" by code_simp
  have a: "2 \<le> associativity (eight_way_config POLICY_PLRU)"
    by (simp add: eight_way_config_def)
  from plru_anti_thrash [OF v a, of "empty_set 8\<lparr>plru_bits := 5\<rparr>"]
  show ?thesis using v a by blast
qed

subsection \<open>FIFO victims cycle through the ways\<close>

text \<open>
  C6. For a valid configuration with the FIFO policy, a store that every access keeps
  well-formed, and a set whose pointer is 0 (as \<^verbatim>\<open>init_cache\<close> leaves it): over
  any trace the run returns, the victims of the misses that fall in that set are, in
  order, \<open>0, 1, \<dots>, associativity - 1, 0, 1, \<dots>\<close>, whatever hits and accesses to
  other sets lie between them, and the pointer ends at the number of those misses
  modulo the associativity. An access that hits leaves the whole store, every FIFO
  pointer included, as it was.
\<close>

theorem fifo_victim_sequence:
  assumes "valid_config (config s)" and "policy (config s) = POLICY_FIFO" and "store_ok s"
    and "cache s = Some sets" and "idx < length sets" and "fifo_pointer (sets ! idx) = 0"
  shows "(\<exists>rs s' sets'. sim_cache s trace = Inr (rs, s') \<and> cache s' = Some sets' \<and>
            set_victims (config s) idx trace rs =
              map (\<lambda>n. int n mod associativity (config s))
                [0..<length (set_victims (config s) idx trace rs)] \<and>
            uint (fifo_pointer (sets' ! idx)) =
              int (length (set_victims (config s) idx trace rs)) mod associativity (config s)) \<and>
         (\<forall>addr rnd h s1. access_cache s addr rnd = Inr (Hit h, s1) \<longrightarrow> cache s1 = cache s)"
proof (rule conjI)
  from assms(6) have "uint (fifo_pointer (sets ! idx)) = 0" by simp
  from fifo_run [OF assms(1-5) this, of trace]
  show "\<exists>rs s' sets'. sim_cache s trace = Inr (rs, s') \<and> cache s' = Some sets' \<and>
      set_victims (config s) idx trace rs =
        map (\<lambda>n. int n mod associativity (config s))
          [0..<length (set_victims (config s) idx trace rs)] \<and>
      uint (fifo_pointer (sets' ! idx)) =
        int (length (set_victims (config s) idx trace rs)) mod associativity (config s)"
    by simp
next
  show "\<forall>addr rnd h s1. access_cache s addr rnd = Inr (Hit h, s1) \<longrightarrow> cache s1 = cache s"
  proof (intro allI impI)
    fix addr rnd h s1
    assume hit: "access_cache s addr rnd = Inr (Hit h, s1)"
    from fifo_access [OF assms(1-4), of addr rnd] obtain r s' sets' where
      r: "access_cache s addr rnd = Inr (r, s')" "cache s' = Some sets'"
        "case r of Hit h \<Rightarrow> sets' = sets
         | Miss v \<Rightarrow> v = uint (fifo_pointer (sets ! unat (GET_INDEX (config s) addr))) \<and>
             uint (fifo_pointer (sets' ! unat (GET_INDEX (config s) addr))) =
               (uint (fifo_pointer (sets ! unat (GET_INDEX (config s) addr))) + 1)
                 mod associativity (config s)"
      by blast
    from r(1) hit have "r = Hit h" "s' = s1" by simp_all
    with r(2,3) assms(4) show "cache s1 = cache s" by simp
  qed
qed

theorem fifo_victim_sequence_witness:
  "valid_config (config warm_fifo_state) \<and> policy (config warm_fifo_state) = POLICY_FIFO \<and>
   store_ok warm_fifo_state \<and> cache warm_fifo_state = Some [full_set, empty_set 8] \<and>
   0 < length [full_set, empty_set 8] \<and> fifo_pointer ([full_set, empty_set 8] ! 0) = 0 \<and>
   (\<exists>rs s' sets'. sim_cache warm_fifo_state warm_fifo_trace = Inr (rs, s') \<and>
      cache s' = Some sets' \<and>
      set_victims (config warm_fifo_state) 0 warm_fifo_trace rs =
        map (\<lambda>n. int n mod associativity (config warm_fifo_state))
          [0..<length (set_victims (config warm_fifo_state) 0 warm_fifo_trace rs)] \<and>
      uint (fifo_pointer (sets' ! 0)) =
        int (length (set_victims (config warm_fifo_state) 0 warm_fifo_trace rs))
          mod associativity (config warm_fifo_state)) \<and>
   map_sum id fst (sim_cache warm_fifo_state warm_fifo_trace)
     = Inr [Hit 0, Miss 0, Hit 1, Miss 1, Miss 0, Miss 2] \<and>
   set_victims (config warm_fifo_state) 0 warm_fifo_trace
     [Hit 0, Miss 0, Hit 1, Miss 1, Miss 0, Miss 2] = [0, 1, 2] \<and>
   map_sum id (\<lambda>r. (fst r, cache (snd r))) (access_cache warm_fifo_state 0 0)
     = Inr (Hit 0, cache warm_fifo_state)"
proof -
  have v: "valid_config (config warm_fifo_state)" by code_simp
  have p: "policy (config warm_fifo_state) = POLICY_FIFO"
    by (simp add: warm_fifo_state_def eight_way_config_def)
  have ok: "store_ok warm_fifo_state" by code_simp
  have c: "cache warm_fifo_state = Some [full_set, empty_set 8]"
    by (simp add: warm_fifo_state_def)
  have i: "0 < length [full_set, empty_set 8]" by simp
  have f: "fifo_pointer ([full_set, empty_set 8] ! 0) = 0"
    by (simp add: full_set_def)
  have run: "map_sum id fst (sim_cache warm_fifo_state warm_fifo_trace)
      = Inr [Hit 0, Miss 0, Hit 1, Miss 1, Miss 0, Miss 2]"
    by code_simp
  have vs: "set_victims (config warm_fifo_state) 0 warm_fifo_trace
      [Hit 0, Miss 0, Hit 1, Miss 1, Miss 0, Miss 2] = [0, 1, 2]"
    by code_simp
  have hit: "map_sum id (\<lambda>r. (fst r, cache (snd r))) (access_cache warm_fifo_state 0 0)
      = Inr (Hit 0, cache warm_fifo_state)"
    by code_simp
  from fifo_victim_sequence [OF v p ok c i f, of warm_fifo_trace]
  show ?thesis using v p ok c i f run vs hit by blast
qed

subsection \<open>Decoding an address loses nothing\<close>

text \<open>
  C7. For a valid configuration and any 32-bit address, the shifts of the three
  decoding macros are defined, and
  \<open>(tag << (bits_for_offset + bits_for_index)) | (index << bits_for_offset) | offset\<close>
  of the decoded fields is the address (its 32 bits, zero-extended to the 64 bits the
  macros compute in).
\<close>

theorem decode_round_trip:
  assumes "valid_config c"
  shows "shift_defined (bits_for_offset c + bits_for_index c) \<and>
     shift_defined (bits_for_offset c) \<and>
     reconstruct c (GET_OFFSET c addr) (GET_INDEX c addr) (GET_TAG c addr) = ucast addr"
proof -
  from assms obtain a b k where g: "b + k \<le> a" "a \<le> 30"
    "bits_for_offset c = int b" "bits_for_index c = int (a - b - k)"
    by (rule valid_config_geometry)
  let ?m = "a - b - k"
  from g(1,2) have le: "b + ?m \<le> 32" by simp
  have "nat (int b + int ?m) = b + ?m" by simp
  then have "reconstruct c (GET_OFFSET c addr) (GET_INDEX c addr) (GET_TAG c addr)
      = push_bit (b + ?m) (drop_bit (b + ?m) (ucast addr))
        OR push_bit b (drop_bit b (take_bit (b + ?m) (ucast addr))) OR take_bit b (ucast addr)"
    unfolding reconstruct_def decode_fields(1,2) [OF g(3,4)] decode_fields(3) [OF g(3,4) le] g(3,4)
    by simp
  also have "\<dots> = ucast addr"
    by (rule reconstruct_fields)
  finally have "reconstruct c (GET_OFFSET c addr) (GET_INDEX c addr) (GET_TAG c addr)
      = ucast addr" .
  moreover have "shift_defined (bits_for_offset c + bits_for_index c)"
    "shift_defined (bits_for_offset c)"
    using g(1,2) by (simp_all add: shift_defined_def g(3,4))
  ultimately show ?thesis by simp
qed

theorem decode_round_trip_witness:
  "valid_config (eight_way_config POLICY_PLRU) \<and>
   shift_defined (bits_for_offset (eight_way_config POLICY_PLRU)
     + bits_for_index (eight_way_config POLICY_PLRU)) \<and>
   shift_defined (bits_for_offset (eight_way_config POLICY_PLRU)) \<and>
   reconstruct (eight_way_config POLICY_PLRU)
     (GET_OFFSET (eight_way_config POLICY_PLRU) 0xDEADBEEF)
     (GET_INDEX (eight_way_config POLICY_PLRU) 0xDEADBEEF)
     (GET_TAG (eight_way_config POLICY_PLRU) 0xDEADBEEF) = 0xDEADBEEF"
proof -
  have v: "valid_config (eight_way_config POLICY_PLRU)" by code_simp
  from decode_round_trip [OF v, of "0xDEADBEEF"] v show ?thesis by simp
qed

subsection \<open>The statistics counters\<close>

text \<open>
  C8. The claim is that the hit counter never exceeds the access counter and that both
  only grow. Both are \<^verbatim>\<open>uint64_t\<close> and wrap: from the store \<^verbatim>\<open>init_cache\<close>
  builds for \<^verbatim>\<open>-s 16 -b 4 -a 1 -p FIFO\<close>, a trace of \<open>2 ^ 64\<close> accesses to
  address 0 misses once and hits ever after, and ends with an access counter of 0 and a
  hit counter of \<open>2 ^ 64 - 1\<close>.
\<close>

theorem counters_wrap:
  "sim_cache (direct_mapped_state 0 0 0) (replicate (2 ^ 64) (0, 0)) =
     Inr (Miss 0 # replicate (2 ^ 64 - 1) (Hit 0), direct_mapped_state 1 0 (- 1)) \<and>
   \<not> total_hit_times (direct_mapped_state 1 0 (- 1))
       \<le> total_access_times (direct_mapped_state 1 0 (- 1))"
proof -
  have split: "replicate (2 ^ 64) (0 :: addr_t, 0 :: int)
      = (0, 0) # replicate (2 ^ 64 - 1) (0, 0)"
    by (simp only: replicate_Suc [symmetric]) simp
  have run: "sim_cache (direct_mapped_state 1 1 0) (replicate (2 ^ 64 - 1) (0, 0)) =
      Inr (replicate (2 ^ 64 - 1) (Hit 0), direct_mapped_state 1 0 (- 1))"
    using direct_mapped_warm_run [of 1 0 "2 ^ 64 - 1"]
    by (simp only: word64_wrap(1) add_0 add.right_inverse)
  have "sim_cache (direct_mapped_state 0 0 0) ((0, 0) # replicate (2 ^ 64 - 1) (0, 0)) =
      Inr (Miss 0 # replicate (2 ^ 64 - 1) (Hit 0), direct_mapped_state 1 0 (- 1))"
    by (simp only: sim_cache.simps direct_mapped_cold run sum.case prod.case)
  then have "sim_cache (direct_mapped_state 0 0 0) (replicate (2 ^ 64) (0, 0)) =
      Inr (Miss 0 # replicate (2 ^ 64 - 1) (Hit 0), direct_mapped_state 1 0 (- 1))"
    by (simp only: split)
  moreover have "\<not> total_hit_times (direct_mapped_state 1 0 (- 1))
       \<le> total_access_times (direct_mapped_state 1 0 (- 1))"
    by (simp add: direct_mapped_state_def)
  ultimately show ?thesis by (rule conjI)
qed

text \<open>
  C8, amended. For a valid configuration and a well-formed store, as long as the
  access counter is below \<open>2 ^ 64 - 1\<close> before the access: the access returns,
  the access counter grows by exactly one, the hit counter by one on a hit and by zero
  on a miss, and a hit counter that was at most the access counter still is.
\<close>

theorem statistics_step:
  assumes "valid_config (config s)" and "store_ok s" and "0 \<le> rnd"
    and "total_hit_times s \<le> total_access_times s"
    and "unat (total_access_times s) < 2 ^ 64 - 1"
  shows "\<exists>r s'. access_cache s addr rnd = Inr (r, s') \<and>
     unat (total_access_times s') = unat (total_access_times s) + 1 \<and>
     unat (total_hit_times s') =
       unat (total_hit_times s) + (case r of Hit h \<Rightarrow> 1 | Miss v \<Rightarrow> 0) \<and>
     total_hit_times s' \<le> total_access_times s'"
proof -
  from access_cache_step [OF assms(1-3), of addr] obtain r s' where
    r: "access_cache s addr rnd = Inr (r, s')"
      "total_access_times s' = total_access_times s + 1"
      "total_hit_times s' = total_hit_times s + (case r of Hit h \<Rightarrow> 1 | Miss v \<Rightarrow> 0)"
    by blast
  from assms(4) have le: "unat (total_hit_times s) \<le> unat (total_access_times s)"
    by (simp add: word_le_nat_alt)
  from assms(5) have a: "unat (total_access_times s + 1) = unat (total_access_times s) + 1"
    by (simp add: unat_word_ariths unat_of_nat)
  from le assms(5) have h: "unat (total_hit_times s + 1) = unat (total_hit_times s) + 1"
    by (simp add: unat_word_ariths unat_of_nat)
  have hs: "unat (total_hit_times s') =
      unat (total_hit_times s) + (case r of Hit h \<Rightarrow> 1 | Miss v \<Rightarrow> 0)"
    unfolding r(3) using h by (cases r) simp_all
  moreover have "unat (total_access_times s') = unat (total_access_times s) + 1"
    unfolding r(2) by (rule a)
  moreover from this hs le have "total_hit_times s' \<le> total_access_times s'"
    by (cases r) (simp_all add: word_le_nat_alt)
  ultimately show ?thesis using r(1) by blast
qed

theorem statistics_step_witness:
  "valid_config (config (eight_way_state POLICY_RANDOM)) \<and>
   store_ok (eight_way_state POLICY_RANDOM) \<and> (0::int) \<le> 12345 \<and>
   total_hit_times (eight_way_state POLICY_RANDOM)
     \<le> total_access_times (eight_way_state POLICY_RANDOM) \<and>
   unat (total_access_times (eight_way_state POLICY_RANDOM)) < 2 ^ 64 - 1 \<and>
   (\<exists>r s'. access_cache (eight_way_state POLICY_RANDOM) 12 12345 = Inr (r, s') \<and>
      unat (total_access_times s') = unat (total_access_times (eight_way_state POLICY_RANDOM)) + 1 \<and>
      unat (total_hit_times s') =
        unat (total_hit_times (eight_way_state POLICY_RANDOM))
          + (case r of Hit h \<Rightarrow> 1 | Miss v \<Rightarrow> 0) \<and>
      total_hit_times s' \<le> total_access_times s')"
proof -
  let ?s = "eight_way_state POLICY_RANDOM"
  have v: "valid_config (config ?s)" by code_simp
  have ok: "store_ok ?s" by code_simp
  have r: "(0::int) \<le> 12345" by simp
  have le: "total_hit_times ?s \<le> total_access_times ?s"
    by (simp add: eight_way_state_def)
  have nw: "unat (total_access_times ?s) < 2 ^ 64 - 1"
    by (simp add: eight_way_state_def)
  from statistics_step [OF v ok r le nw, of 12]
  show ?thesis using v ok r le nw by blast
qed

subsection \<open>The decoded index is within the store\<close>

text \<open>
  C9. For a valid configuration, a well-formed store and any address, the decoded
  index is in \<open>[0, set_num)\<close>, which is the length of the array of sets, and the
  access returns without an error, leaving the configuration as it was and the store
  well-formed. \<open>rnd\<close>, the value of \<^verbatim>\<open>rand()\<close>, is not negative.
\<close>

theorem index_in_bounds_access_succeeds:
  assumes "valid_config (config s)" and "store_ok s" and "0 \<le> rnd"
  shows "0 \<le> uint (GET_INDEX (config s) addr) \<and>
     uint (GET_INDEX (config s) addr) < set_num (config s) \<and>
     (\<exists>sets. cache s = Some sets \<and> unat (GET_INDEX (config s) addr) < length sets) \<and>
     (\<exists>r s'. access_cache s addr rnd = Inr (r, s') \<and> config s' = config s \<and> store_ok s')"
proof -
  from assms(1,2) obtain sets k where ctx: "cache s = Some sets"
    "unat (GET_INDEX (config s) addr) < length sets"
    "int (length sets) = set_num (config s)"
    by (rule access_context)
  from ctx(2) have "int (unat (GET_INDEX (config s) addr)) < int (length sets)"
    by (simp only: of_nat_less_iff)
  then have "uint (GET_INDEX (config s) addr) < set_num (config s)"
    by (simp only: ctx(3) uint_nat)
  moreover from access_cache_step [OF assms, of addr]
  have "\<exists>r s'. access_cache s addr rnd = Inr (r, s') \<and> config s' = config s \<and> store_ok s'"
    by blast
  ultimately show ?thesis
    using ctx(1,2) by simp
qed

theorem index_in_bounds_access_succeeds_witness:
  "valid_config (config (eight_way_state POLICY_RANDOM)) \<and>
   store_ok (eight_way_state POLICY_RANDOM) \<and> (0::int) \<le> 12345 \<and>
   0 \<le> uint (GET_INDEX (config (eight_way_state POLICY_RANDOM)) 12) \<and>
   uint (GET_INDEX (config (eight_way_state POLICY_RANDOM)) 12)
     < set_num (config (eight_way_state POLICY_RANDOM)) \<and>
   (\<exists>sets. cache (eight_way_state POLICY_RANDOM) = Some sets \<and>
      unat (GET_INDEX (config (eight_way_state POLICY_RANDOM)) 12) < length sets) \<and>
   (\<exists>r s'. access_cache (eight_way_state POLICY_RANDOM) 12 12345 = Inr (r, s') \<and>
      config s' = config (eight_way_state POLICY_RANDOM) \<and> store_ok s')"
proof -
  let ?s = "eight_way_state POLICY_RANDOM"
  have v: "valid_config (config ?s)" by code_simp
  have ok: "store_ok ?s" by code_simp
  have r: "(0::int) \<le> 12345" by simp
  from index_in_bounds_access_succeeds [OF v ok r, of 12]
  show ?thesis using v ok r by blast
qed

subsection \<open>A hit on the victim just selected changes nothing\<close>

text \<open>
  C10. For a valid configuration with associativity at least 2 and any tree bits,
  the victim selection returns a way and a set, and the hit update for that way on
  that set returns the set unchanged: both walks leave the same bits along the
  victim's path.
\<close>

theorem plru_hit_after_select_is_identity:
  assumes "valid_config c" and "2 \<le> associativity c"
  shows "\<exists>w s1.
     find_and_updata_plru_victim_way c st = Inr (w, s1) \<and>
     update_plru_victim_way c s1 (ucast w) = Inr s1"
proof -
  from assms(1) obtain k where k: "associativity c = 2 ^ k"
    by (rule valid_config_assoc)
  with valid_config_levels [OF assms(1) k] assms(2) have kb: "0 < k" "k \<le> 6" by simp_all
  let ?t = "bit (plru_bits st)"
  let ?bs = "fst (spec_select_path k 0 ?t)"
  let ?t1 = "snd (spec_select_path k 0 ?t)"
  from find_plru_refines [OF k kb, of st] obtain w b1 where
    r1: "find_and_updata_plru_victim_way c st = Inr (w, st\<lparr>plru_bits := b1\<rparr>)"
      "unat w = way_of_bits ?bs" "bit b1 = ?t1"
    by (auto simp: spec_select_victim_sel)
  let ?s1 = "st\<lparr>plru_bits := b1\<rparr>"
  from update_plru_refines [OF k kb, of ?s1 "ucast w"] obtain b2 where
    r2: "update_plru_victim_way c ?s1 (ucast w) = Inr (?s1\<lparr>plru_bits := b2\<rparr>)"
      "bit b2 = spec_on_hit k (unat (ucast w :: 32 word)) (bit (plru_bits ?s1))"
    by blast
  have len: "length ?bs = k" by (rule spec_select_path_length)
  have "way_of_bits ?bs < 2 ^ k"
    using way_of_bits_bound [of ?bs] len by simp
  also have "(2::nat) ^ k \<le> 64" using kb(2) by (rule pow_le_64)
  finally have "unat w < 64" using r1(2) by simp
  then have "unat (ucast w :: 32 word) = unat w"
    by (rule ucast_small)
  with r2(2) r1(2,3) have "bit b2 = spec_hit_path (decision_bits k (way_of_bits ?bs)) 0 ?t1"
    by (simp add: spec_on_hit_def)
  also have "decision_bits k (way_of_bits ?bs) = ?bs"
    using decision_bits_way_of_bits [of ?bs] len by simp
  also have "spec_hit_path ?bs 0 ?t1 = ?t1"
    by (rule spec_hit_path_select)
  finally have "bit b2 = bit b1" using r1(3) by simp
  then have "b2 = b1" by (simp add: bit_eq_iff)
  with r2(1) have "update_plru_victim_way c ?s1 (ucast w) = Inr ?s1" by simp
  with r1(1) show ?thesis by blast
qed

theorem plru_hit_after_select_is_identity_witness:
  "valid_config (eight_way_config POLICY_PLRU) \<and>
   2 \<le> associativity (eight_way_config POLICY_PLRU) \<and>
   (\<exists>w s1.
      find_and_updata_plru_victim_way (eight_way_config POLICY_PLRU)
        (empty_set 8\<lparr>plru_bits := 5\<rparr>) = Inr (w, s1) \<and>
      update_plru_victim_way (eight_way_config POLICY_PLRU) s1 (ucast w) = Inr s1)"
proof -
  have v: "valid_config (eight_way_config POLICY_PLRU)" by code_simp
  have a: "2 \<le> associativity (eight_way_config POLICY_PLRU)"
    by (simp add: eight_way_config_def)
  from plru_hit_after_select_is_identity [OF v a, of "empty_set 8\<lparr>plru_bits := 5\<rparr>"]
  show ?thesis using v a by blast
qed

end
